theory Spec2Isabelle
  imports Complex_Main "HOL-Library.Multiset"
begin

section \<open>Strings as Python reads them\<close>

text \<open>
  A Python \<open>str\<close> is a sequence of code points. The model uses \<^typ>\<open>string\<close>, reading every
  \<^typ>\<open>char\<close> as the code point of the same number (0 to 255). On that range
  \<open>str.isspace\<close> holds for the twelve code points below, and \<open>str.lower\<close> moves
  \<open>A-Z\<close> and the upper-case letters of the Latin-1 block (192 to 222 without the
  multiplication sign 215) up by 32.
\<close>

definition isspace :: "char \<Rightarrow> bool" where
  "isspace c = (of_char c \<in> {9, 10, 11, 12, 13, 28, 29, 30, 31, 32, 133, 160 :: nat})"

definition lower_char :: "char \<Rightarrow> char" where
  "lower_char c =
     (let n = (of_char c :: nat)
      in if (65 \<le> n \<and> n \<le> 90) \<or> (192 \<le> n \<and> n \<le> 222 \<and> n \<noteq> 215)
         then char_of (n + 32) else c)"

definition lower :: "string \<Rightarrow> string" where
  "lower s = map lower_char s"

text \<open>\<open>s.lstrip(chars)\<close> and \<open>s.rstrip(chars)\<close> for a set of characters given as a predicate.\<close>

definition lstrip_of :: "(char \<Rightarrow> bool) \<Rightarrow> string \<Rightarrow> string" where
  "lstrip_of p s = dropWhile p s"

definition rstrip_of :: "(char \<Rightarrow> bool) \<Rightarrow> string \<Rightarrow> string" where
  "rstrip_of p s = rev (dropWhile p (rev s))"

text \<open>\<open>s.strip()\<close>: whitespace removed at both ends.\<close>

definition strip :: "string \<Rightarrow> string" where
  "strip s = rstrip_of isspace (lstrip_of isspace s)"

definition endswith :: "string \<Rightarrow> string \<Rightarrow> bool" where
  "endswith s suf = (length suf \<le> length s \<and> drop (length s - length suf) s = suf)"

definition startswith :: "string \<Rightarrow> string \<Rightarrow> bool" where
  "startswith s pre = (take (length pre) s = pre)"

section \<open>core/utils.py\<close>

text \<open>
  \<^verbatim>\<open>
  def normalize(name):
      if not name: return name
      name = name.strip().lower()
      if name.endswith('.'): name = name[:-1]
      return name
  \<close>
\<close>

definition normalize_str :: "string \<Rightarrow> string" where
  "normalize_str name =
     (if name = [] then name
      else (let n = lower (strip name)
            in if endswith n ''.'' then butlast n else n))"

text \<open>
  \<open>is_likely_subdomain\<close> is \<open>re.match(r'^[a-z0-9\-\.]+$', s)\<close>. In Python \<open>$\<close> also
  matches just before a newline that ends the string.
\<close>

definition host_char :: "char \<Rightarrow> bool" where
  "host_char c =
     (let n = (of_char c :: nat)
      in (97 \<le> n \<and> n \<le> 122) \<or> (48 \<le> n \<and> n \<le> 57) \<or> n = 45 \<or> n = 46)"

definition is_likely_subdomain :: "string \<Rightarrow> bool" where
  "is_likely_subdomain s =
     (let body = (if s \<noteq> [] \<and> last s = CHR 0x0A then butlast s else s)
      in body \<noteq> [] \<and> list_all host_char body)"

text \<open>
  \<open>dedupe\<close> is a generator over an iterable; the model returns the list of the values it
  yields, in order. \<open>seen\<close> holds exactly the values yielded so far.
\<close>

fun dedupe_from :: "string set \<Rightarrow> string list \<Rightarrow> string list" where
  "dedupe_from seen [] = []"
| "dedupe_from seen (item # rest) =
     (if item \<noteq> [] then
        (let n = normalize_str item
         in if n \<noteq> [] \<and> n \<notin> seen then n # dedupe_from (insert n seen) rest
            else dedupe_from seen rest)
      else dedupe_from seen rest)"

definition dedupe :: "string list \<Rightarrow> string list" where
  "dedupe iterable = dedupe_from {} iterable"

text \<open>
  The trimmed input ends in a dot that follows another dot or a whitespace character.
\<close>

definition dot_after_dot_or_space :: "string \<Rightarrow> bool" where
  "dot_after_dot_or_space x =
     (case rev (strip x) of
        c1 # c2 # _ \<Rightarrow> c1 = CHR ''.'' \<and> (c2 = CHR ''.'' \<or> isspace c2)
      | _ \<Rightarrow> False)"


section \<open>Exceptions and task outcomes\<close>

text \<open>
  A raised exception is a value. \<open>ValueError\<close> is what
  \<open>ThreadPoolExecutor(max_workers=n)\<close> raises for \<open>n \<le> 0\<close>, \<open>AttributeError\<close> what
  \<open>item.get\<close> raises on a JSON value that is no object, \<open>UnboundLocalError\<close> a read of a
  local that was never assigned; \<open>Raised\<close> is any other exception, with its message.
\<close>

datatype exn = ValueError | AttributeError | UnboundLocalError | Raised string

text \<open>What \<open>fut.result()\<close> gives for a \<open>resolve_name_any\<close> task: it raises or returns a list.\<close>

type_synonym outcome = "exn + string list"

text \<open>\<open>try: res = fut.result()  except Exception: res = []\<close>\<close>

definition result_or_empty :: "outcome \<Rightarrow> string list" where
  "result_or_empty r = (case r of Inl e \<Rightarrow> [] | Inr ips \<Rightarrow> ips)"

section \<open>core/resolver.py\<close>

datatype rdtype = A | AAAA | CNAME

text \<open>
  The resolver that \<open>_get_resolver\<close> builds is identified with its answers:
  \<open>dns k name rdtype\<close> is what \<open>resolver.resolve(name, rdtype)\<close> does when \<open>k\<close> queries
  were sent before it in this call, an exception (NXDOMAIN, timeout, SERVFAIL, ...) or the
  \<open>to_text()\<close> of the answer's records. The answer to a query may change from one query to
  the next.
\<close>

type_synonym dns = "nat \<Rightarrow> string \<Rightarrow> rdtype \<Rightarrow> exn + string list"

text \<open>
  The locals \<open>results\<close> and \<open>seen\<close> of \<open>resolve_name_any\<close>, and the log of the queries sent:
  the queried name, the record type and the number of CNAME hops between the original name
  and the queried one.
\<close>

record rstate =
  results :: "string list"
  seen :: "string set"
  sent :: "(nat \<times> string \<times> rdtype) list"

definition is_dot :: "char \<Rightarrow> bool" where
  "is_dot c = (c = CHR ''.'')"

text \<open>
  \<^verbatim>\<open>
  def _safe_resolve(resolver, name, rdtype, lifetime=5.0):
      try:
          answers = resolver.resolve(name, rdtype, lifetime=lifetime)
          return [r.to_text().rstrip('.') for r in answers]
      except Exception as e:
          return []
  \<close>
\<close>

definition safe_resolve :: "dns \<Rightarrow> nat \<Rightarrow> string \<Rightarrow> rdtype \<Rightarrow> rstate \<Rightarrow> string list \<times> rstate" where
  "safe_resolve resolver hop name rd st =
     (case resolver (length (sent st)) name rd of
        Inl e \<Rightarrow> []
      | Inr answers \<Rightarrow> map (rstrip_of is_dot) answers,
      st\<lparr>sent := sent st @ [(hop, name, rd)]\<rparr>)"

text \<open>\<open>x = _safe_resolve(...); if x: results.extend(x)\<close>\<close>

definition extend_results :: "string list \<Rightarrow> rstate \<Rightarrow> rstate" where
  "extend_results xs st = (if xs \<noteq> [] then st\<lparr>results := results st @ xs\<rparr> else st)"

text \<open>
  The closure \<open>resolve_cname(target_name, depth)\<close> and its loop \<open>for t in cnames\<close>:
  \<^verbatim>\<open>
  def resolve_cname(target_name, depth=0):
      if depth >= max_depth: return
      cnames = _safe_resolve(resolver, target_name, "CNAME", lifetime=timeout)
      for t in cnames:
          t = t.rstrip('.')
          if t not in seen:
              results.append(t); seen.add(t)
              t_a = _safe_resolve(resolver, t, "A", lifetime=timeout)
              if t_a: results.extend(t_a)
              t_aaaa = _safe_resolve(resolver, t, "AAAA", lifetime=timeout)
              if t_aaaa: results.extend(t_aaaa)
              resolve_cname(t, depth + 1)
  \<close>
\<close>

function resolve_cname :: "dns \<Rightarrow> int \<Rightarrow> string \<Rightarrow> int \<Rightarrow> rstate \<Rightarrow> rstate"
  and for_cnames :: "dns \<Rightarrow> int \<Rightarrow> int \<Rightarrow> string list \<Rightarrow> rstate \<Rightarrow> rstate"
where
  "resolve_cname resolver max_depth target_name depth st =
     (if depth \<ge> max_depth then st
      else (case safe_resolve resolver (nat depth) target_name CNAME st of
              (cnames, st1) \<Rightarrow> for_cnames resolver max_depth depth cnames st1))"
| "for_cnames resolver max_depth depth [] st = st"
| "for_cnames resolver max_depth depth (t0 # rest) st =
     (let t = rstrip_of is_dot t0
      in if t \<notin> seen st then
           (case safe_resolve resolver (nat depth + 1) t A
                   (st\<lparr>results := results st @ [t], seen := insert t (seen st)\<rparr>) of
              (t_a, st1) \<Rightarrow>
                (case safe_resolve resolver (nat depth + 1) t AAAA (extend_results t_a st1) of
                   (t_aaaa, st2) \<Rightarrow>
                     for_cnames resolver max_depth depth rest
                       (resolve_cname resolver max_depth t (depth + 1)
                          (extend_results t_aaaa st2))))
         else for_cnames resolver max_depth depth rest st)"
  by pat_completeness auto
termination
  by (relation "inv_image (less_than <*lex*> less_than)
        (\<lambda>x. case x of
           Inl (r, md, tn, d, st) \<Rightarrow> (if d \<ge> md then 0 else 2 * nat (md - d) + 2, 0)
         | Inr (r, md, d, ts, st) \<Rightarrow> (2 * nat (md - d) + 1, length ts))")
     (auto split: prod.splits)

text \<open>
  \<^verbatim>\<open>
  deduped = []
  for x in results:
      if x not in deduped: deduped.append(x)
  \<close>
\<close>

fun dedup_into :: "string list \<Rightarrow> string list \<Rightarrow> string list" where
  "dedup_into deduped [] = deduped"
| "dedup_into deduped (x # xs) =
     (if x \<notin> set deduped then dedup_into (deduped @ [x]) xs else dedup_into deduped xs)"

text \<open>The state of \<open>resolve_name_any\<close> when the CNAME chains have been followed.\<close>

definition explore :: "dns \<Rightarrow> string \<Rightarrow> int \<Rightarrow> rstate" where
  "explore resolver name max_depth =
     (case safe_resolve resolver 0 name A \<lparr>results = [], seen = {}, sent = []\<rparr> of
        (a, st1) \<Rightarrow>
          (case safe_resolve resolver 0 name AAAA (extend_results a st1) of
             (aaaa, st2) \<Rightarrow>
               resolve_cname resolver max_depth name 0 (extend_results aaaa st2)))"

text \<open>
  \<open>resolve_name_any(name, timeout, nameservers, max_depth)\<close>. Its first step,
  \<open>_get_resolver(nameservers, timeout)\<close>, either raises (no resolver configuration, a
  malformed nameserver), and the exception leaves the function, or gives the resolver.
\<close>

definition resolve_name_any :: "exn + dns \<Rightarrow> string \<Rightarrow> int \<Rightarrow> exn + string list" where
  "resolve_name_any get_resolver name max_depth =
     (case get_resolver of
        Inl e \<Rightarrow> Inl e
      | Inr resolver \<Rightarrow> Inr (dedup_into [] (results (explore resolver name max_depth))))"

text \<open>
  A logged query stays within \<open>max_depth\<close> hops: a CNAME query is sent for a name fewer than
  \<open>max_depth\<close> hops from the original one, an address query for the original name or for a
  name at most \<open>max_depth\<close> hops from it.
\<close>

definition within_depth :: "int \<Rightarrow> nat \<times> string \<times> rdtype \<Rightarrow> bool" where
  "within_depth max_depth q =
     (case q of (hop, n, rd) \<Rightarrow>
        if rd = CNAME then int hop < max_depth else hop = 0 \<or> int hop \<le> max_depth)"

text \<open>The first occurrences of a list, in order: what "deduplicated, first-seen order" means.\<close>

fun first_occurrences :: "'a list \<Rightarrow> 'a list" where
  "first_occurrences [] = []"
| "first_occurrences (x # xs) = x # first_occurrences (filter (\<lambda>y. y \<noteq> x) xs)"

text \<open>
  \<open>bulk_resolve(names, concurrency, timeout, nameservers)\<close>. The futures are numbered in the
  order of submission; \<open>run i n\<close> is what \<open>fut.result()\<close> gives for the \<open>i\<close>-th task, the
  call \<open>resolve_name_any(n, timeout, nameservers)\<close>, and \<open>as_completed\<close> hands the futures
  over in the order in which they finish.
  \<^verbatim>\<open>
  results = {}
  with ThreadPoolExecutor(max_workers=concurrency) as ex:
      futures = {ex.submit(resolve_name_any, n, timeout, nameservers): n for n in names}
      for fut in as_completed(futures):
          n = futures[fut]
          try: ips = fut.result()
          except Exception as e: ips = []
          results[n] = ips
  return results
  \<close>
\<close>

definition bulk_resolve ::
  "((nat \<times> string) list \<Rightarrow> (nat \<times> string) list) \<Rightarrow> (nat \<Rightarrow> string \<Rightarrow> outcome) \<Rightarrow>
   string list \<Rightarrow> int \<Rightarrow> exn + (string \<rightharpoonup> string list)" where
  "bulk_resolve as_completed run names concurrency =
     (if concurrency \<le> 0 then Inl ValueError
      else (let futures = zip [0..<length names] names
            in Inr (fold (\<lambda>(fut, n) results. results(n \<mapsto> result_or_empty (run fut n)))
                      (as_completed futures) Map.empty)))"


section \<open>core/bruteforce.py\<close>

text \<open>
  The wordlist file: missing, or the lines that \<open>for raw in fh\<close> reads (each with its line
  end).
\<close>

datatype wordlist = Missing | Lines "string list"

text \<open>
  The state of the generator: the line counter, the list \<open>pending_futures\<close> (a future is
  named by the number of the line that submitted it), the hostnames yielded so far, the
  calls of \<open>ex.submit\<close> made so far, the scan passes run so far (the line and the size of the
  list scanned), and the exception that ended the generator, if one did.
\<close>

record bstate =
  processed :: nat
  pending_futures :: "(nat \<times> string) list"
  yielded :: "string list"
  submitted :: "(nat \<times> string) list"
  scans :: "(nat \<times> nat) list"
  raised :: "exn option"

text \<open>
  \<open>skip_names = set(normalize(s) for s in skip_set if s) if skip_set else set()\<close>
\<close>

definition skip_names :: "string list option \<Rightarrow> string set" where
  "skip_names skip_set =
     (case skip_set of
        None \<Rightarrow> {}
      | Some ss \<Rightarrow> if ss = [] then {} else set (map normalize_str (filter (\<lambda>s. s \<noteq> []) ss)))"

text \<open>
  One pass over the pending list. \<open>is_done fut\<close> is what \<open>fut.done()\<close> answers in this pass,
  \<open>run fut cand\<close> what \<open>fut.result()\<close> gives.
  \<^verbatim>\<open>
  new_pending = []
  for fut, cand in pending_futures:
      if fut.done():
          try: res = fut.result()
          except Exception: res = []
          if res: yield normalize(cand)
      else:
          new_pending.append((fut, cand))
  pending_futures = new_pending
  \<close>
\<close>

fun scan_pass ::
  "(nat \<Rightarrow> bool) \<Rightarrow> (nat \<Rightarrow> string \<Rightarrow> outcome) \<Rightarrow> (nat \<times> string) list \<Rightarrow>
   string list \<times> (nat \<times> string) list \<Rightarrow> string list \<times> (nat \<times> string) list" where
  "scan_pass is_done run [] (ys, new_pending) = (ys, new_pending)"
| "scan_pass is_done run ((fut, cand) # rest) (ys, new_pending) =
     (if is_done fut then
        (if result_or_empty (run fut cand) \<noteq> []
         then scan_pass is_done run rest (ys @ [normalize_str cand], new_pending)
         else scan_pass is_done run rest (ys, new_pending))
      else scan_pass is_done run rest (ys, new_pending @ [(fut, cand)]))"

text \<open>
  The body of \<open>for raw in fh\<close>. \<open>done_at p fut\<close> is the answer of \<open>fut.done()\<close> in the scan
  pass of line \<open>p\<close>. Progress reports only write to the log and are left out.
\<close>

definition step ::
  "string \<Rightarrow> int \<Rightarrow> string set \<Rightarrow> (nat \<Rightarrow> string \<Rightarrow> outcome) \<Rightarrow> (nat \<Rightarrow> nat \<Rightarrow> bool) \<Rightarrow>
   bstate \<Rightarrow> string \<Rightarrow> bstate" where
  "step domain max_pending skips run done_at st raw =
     (let p = processed st + 1;
          w = strip raw
      in if w = [] \<or> startswith w ''#'' then st\<lparr>processed := p\<rparr>
         else
           (let candidate = w @ ''.'' @ domain;
                cand_norm = normalize_str candidate
            in if cand_norm \<in> skips then st\<lparr>processed := p\<rparr>
               else
                 (let pend = pending_futures st @ [(p, candidate)];
                      st1 = st\<lparr>processed := p, pending_futures := pend,
                               submitted := submitted st @ [(p, candidate)]\<rparr>
                  in if int (length pend) \<ge> max_pending then
                       (case scan_pass (done_at p) run pend ([], []) of
                          (ys, new_pending) \<Rightarrow>
                            st1\<lparr>pending_futures := new_pending,
                                yielded := yielded st @ ys,
                                scans := scans st @ [(p, length pend)]\<rparr>)
                     else st1)))"

text \<open>
  \<^verbatim>\<open>
  # drain remaining
  for fut, cand in pending_futures:
      try: res = fut.result()
      except Exception: res = []
      if res: yield normalize(cand)
  \<close>
  \<open>fut.result()\<close> waits for the task; every task ends (it returns or raises).
\<close>

fun drain :: "(nat \<Rightarrow> string \<Rightarrow> outcome) \<Rightarrow> (nat \<times> string) list \<Rightarrow> string list" where
  "drain run [] = []"
| "drain run ((fut, cand) # rest) =
     (if result_or_empty (run fut cand) \<noteq> [] then normalize_str cand # drain run rest
      else drain run rest)"

definition initial :: bstate where
  "initial = \<lparr>processed = 0, pending_futures = [], yielded = [], submitted = [],
              scans = [], raised = None\<rparr>"

text \<open>The state when the last line has been read, before the final drain.\<close>

definition read_lines ::
  "string \<Rightarrow> int \<Rightarrow> string set \<Rightarrow> (nat \<Rightarrow> string \<Rightarrow> outcome) \<Rightarrow> (nat \<Rightarrow> nat \<Rightarrow> bool) \<Rightarrow>
   string list \<Rightarrow> bstate" where
  "read_lines domain max_pending skips run done_at raws =
     foldl (step domain max_pending skips run done_at) initial raws"

text \<open>
  \<open>bruteforce_stream(domain, wordlist_path, concurrency, max_pending, skip_set, timeout,
  progress_every)\<close>, run to its end: the final state holds everything it yielded and
  submitted.
\<close>

definition bruteforce_stream ::
  "string \<Rightarrow> wordlist \<Rightarrow> int \<Rightarrow> int \<Rightarrow> string list option \<Rightarrow>
   (nat \<Rightarrow> string \<Rightarrow> outcome) \<Rightarrow> (nat \<Rightarrow> nat \<Rightarrow> bool) \<Rightarrow> bstate" where
  "bruteforce_stream domain wordlist_path concurrency max_pending skip_set run done_at =
     (case wordlist_path of
        Missing \<Rightarrow> initial
      | Lines raws \<Rightarrow>
          (let skips = skip_names skip_set
           in if concurrency \<le> 0 then initial\<lparr>raised := Some ValueError\<rparr>
              else (let st = read_lines domain max_pending skips run done_at raws
                    in st\<lparr>yielded := yielded st @ drain run (pending_futures st),
                          pending_futures := []\<rparr>)))"

text \<open>The entries of the \<open>skip_set\<close> argument, as given.\<close>

definition entries :: "string list option \<Rightarrow> string set" where
  "entries skip_set = (case skip_set of None \<Rightarrow> {} | Some ss \<Rightarrow> set ss)"

text \<open>A submitted task whose resolution gave at least one record.\<close>

definition success :: "(nat \<Rightarrow> string \<Rightarrow> outcome) \<Rightarrow> nat \<times> string \<Rightarrow> bool" where
  "success run task = (result_or_empty (run (fst task) (snd task)) \<noteq> [])"

text \<open>The candidate that a line of the wordlist stands for, if it stands for one.\<close>

definition candidate_of :: "string \<Rightarrow> string \<Rightarrow> string option" where
  "candidate_of domain raw =
     (let w = strip raw
      in if w = [] \<or> startswith w ''#'' then None else Some (w @ ''.'' @ domain))"

section \<open>core/collector.py\<close>

datatype json =
  JNull | JBool bool | JNum int | JStr string | JArr "json list" | JObj "(string \<times> json) list"

text \<open>
  One attempt, the three calls \<open>rate_limited_get(url, timeout)\<close>, \<open>resp.raise_for_status()\<close>
  and \<open>resp.json()\<close>: the first raised (a network error), the second raised (it does so for
  the statuses 400 to 599 and for no other), the third raised (the body is not JSON), or
  none raised and \<open>data\<close> is the parsed body.
\<close>

datatype fetch = NetworkError | BadStatus | Unparsable | Body json

definition RETRY_ATTEMPTS :: nat where
  "RETRY_ATTEMPTS = 3"

definition RETRY_BACKOFF_BASE :: rat where
  "RETRY_BACKOFF_BASE = 3 / 2"

text \<open>How the retry loop ends: \<open>return []\<close> inside it, or it is left with these locals.\<close>

datatype loop_exit = Returned_empty | Loop_left "json list option" bool

text \<open>The requests sent (by attempt number) and the seconds slept between them.\<close>

record effects =
  requests :: "nat list"
  sleeps :: "rat list"

text \<open>
  \<^verbatim>\<open>
  last_exc = None
  for attempt in range(1, _RETRY_ATTEMPTS + 1):
      try:
          resp = rate_limited_get(url, timeout=timeout)
          resp.raise_for_status()
          data = resp.json()
          if not isinstance(data, list): return []
          last_exc = None
          break
      except Exception as e:
          last_exc = e
          if attempt < _RETRY_ATTEMPTS:
              backoff = (_RETRY_BACKOFF_BASE ** (attempt - 1))
              time.sleep(backoff)
  \<close>
  The loop over the attempts still to make; \<open>last_exc\<close> is kept as "is not None".
\<close>

fun retry_loop :: "(nat \<Rightarrow> fetch) \<Rightarrow> nat list \<Rightarrow> bool \<Rightarrow> effects \<Rightarrow> loop_exit \<times> effects" where
  "retry_loop get [] last_exc eff = (Loop_left None last_exc, eff)"
| "retry_loop get (attempt # rest) last_exc eff =
     (let eff1 = eff\<lparr>requests := requests eff @ [attempt]\<rparr>
      in case get attempt of
           Body data \<Rightarrow>
             (case data of
                JArr items \<Rightarrow> (Loop_left (Some items) False, eff1)
              | _ \<Rightarrow> (Returned_empty, eff1))
         | _ \<Rightarrow>
             (if attempt < RETRY_ATTEMPTS
              then retry_loop get rest True
                     (eff1\<lparr>sleeps := sleeps eff1 @ [RETRY_BACKOFF_BASE ^ (attempt - 1)]\<rparr>)
              else retry_loop get rest True eff1))"

definition line_break :: "char \<Rightarrow> bool" where
  "line_break c = (of_char c \<in> {10, 11, 12, 13, 28, 29, 30, 133 :: nat})"

text \<open>
  \<open>str.splitlines()\<close>: the text is cut at every line boundary (\<open>\r\n\<close> is one boundary),
  and the boundaries are dropped; no empty last line. \<open>cur\<close> is the line being read.
\<close>

fun splitlines_from :: "string \<Rightarrow> string \<Rightarrow> string list" where
  "splitlines_from cur [] = (if cur = [] then [] else [cur])"
| "splitlines_from cur [c] = (if line_break c then [cur] else [cur @ [c]])"
| "splitlines_from cur (c # d # cs) =
     (if c = CHR 0x0D \<and> d = CHR 0x0A then cur # splitlines_from [] cs
      else if line_break c then cur # splitlines_from [] (d # cs)
      else splitlines_from (cur @ [c]) (d # cs))"

definition splitlines :: "string \<Rightarrow> string list" where
  "splitlines s = splitlines_from [] s"

definition star_or_dot :: "char \<Rightarrow> bool" where
  "star_or_dot c = (c = CHR ''*'' \<or> c = CHR ''.'')"

text \<open>\<open>candidate = line.lstrip("*.").rstrip(".").lower()\<close>\<close>

definition candidate :: "string \<Rightarrow> string" where
  "candidate line = lower (rstrip_of is_dot (lstrip_of star_or_dot line))"

text \<open>
  The body of \<open>for line in nv.splitlines()\<close>: the hosts that one line appends.
  \<^verbatim>\<open>
  line = line.strip()
  if not line: continue
  if "@" in line: continue
  candidate = line.lstrip("*.").rstrip(".").lower()
  if candidate.endswith(domain) and is_likely_subdomain(candidate):
      hosts.append(normalize(candidate))
  \<close>
\<close>

definition line_hosts :: "string \<Rightarrow> string \<Rightarrow> string list" where
  "line_hosts domain line0 =
     (let line = strip line0
      in if line = [] then []
         else if CHR ''@'' \<in> set line then []
         else (let c = candidate line
               in if endswith c domain \<and> is_likely_subdomain c then [normalize_str c] else []))"

text \<open>
  The body of \<open>for item in data\<close>. \<open>item.get("name_value", "")\<close> raises on an item that is
  no JSON object; a value that is no string is passed over.
\<close>

definition item_hosts :: "string \<Rightarrow> json \<Rightarrow> exn + string list" where
  "item_hosts domain item =
     (case item of
        JObj members \<Rightarrow>
          (case map_of members ''name_value'' of
             None \<Rightarrow> Inr (concat (map (line_hosts domain) (splitlines [])))
           | Some (JStr nv) \<Rightarrow> Inr (concat (map (line_hosts domain) (splitlines nv)))
           | Some _ \<Rightarrow> Inr [])
      | _ \<Rightarrow> Inl AttributeError)"

fun data_hosts :: "string \<Rightarrow> json list \<Rightarrow> string list \<Rightarrow> exn + string list" where
  "data_hosts domain [] hosts = Inr hosts"
| "data_hosts domain (item # rest) hosts =
     (case item_hosts domain item of
        Inl e \<Rightarrow> Inl e
      | Inr hs \<Rightarrow> data_hosts domain rest (hosts @ hs))"

text \<open>
  \<open>crt_sh_collect(domain, timeout, calls_per_minute)\<close> with what it did: \<open>get attempt\<close> is
  the outcome of the attempt of that number. The rate limiter only delays a request.
\<close>

definition crt_sh_run :: "string \<Rightarrow> (nat \<Rightarrow> fetch) \<Rightarrow> (exn + string list) \<times> effects" where
  "crt_sh_run domain get =
     (case retry_loop get [1..<RETRY_ATTEMPTS + 1] False \<lparr>requests = [], sleeps = []\<rparr> of
        (Returned_empty, eff) \<Rightarrow> (Inr [], eff)
      | (Loop_left data last_exc, eff) \<Rightarrow>
          (if last_exc then (Inr [], eff)
           else (case data of
                   None \<Rightarrow> (Inl UnboundLocalError, eff)
                 | Some items \<Rightarrow>
                     (case data_hosts domain items [] of
                        Inl e \<Rightarrow> (Inl e, eff)
                      | Inr hosts \<Rightarrow> (Inr (dedupe hosts), eff)))))"

definition crt_sh_collect :: "string \<Rightarrow> (nat \<Rightarrow> fetch) \<Rightarrow> exn + string list" where
  "crt_sh_collect domain get = fst (crt_sh_run domain get)"

definition failed :: "fetch \<Rightarrow> bool" where
  "failed f = (case f of Body data \<Rightarrow> False | _ \<Rightarrow> True)"

text \<open>
  What the service does in one attempt: no response (the request raises), or a response with
  a status code and a body, which \<open>resp.json()\<close> parses or not.
\<close>

datatype response = No_response | Response int "json option"

text \<open>
  The attempt on a response. \<open>raise_for_status\<close> raises an \<open>HTTPError\<close> for a status from
  400 to 599; a response with any other status, 1xx and 3xx among them, goes on to
  \<open>resp.json()\<close>.
\<close>

definition fetch_of :: "response \<Rightarrow> fetch" where
  "fetch_of r =
     (case r of
        No_response \<Rightarrow> NetworkError
      | Response status body \<Rightarrow>
          if 400 \<le> status \<and> status < 600 then BadStatus
          else (case body of None \<Rightarrow> Unparsable | Some data \<Rightarrow> Body data))"

text \<open>The responses on which the attempt raises: they are the ones retried.\<close>

definition raises :: "response \<Rightarrow> bool" where
  "raises r =
     (case r of
        No_response \<Rightarrow> True
      | Response status body \<Rightarrow> (400 \<le> status \<and> status < 600) \<or> body = None)"

section \<open>cli.py\<close>

record found =
  name :: string
  ips :: "string list"

text \<open>
  The loop of \<open>main\<close> over \<open>res_map.items()\<close>:
  \<^verbatim>\<open>
  for name, ips in res_map.items():
      if ips:
          if has_wildcard and wildcard_ips and set(ips).issubset(set(wildcard_ips)):
              continue
          results.append({"name": name, "ips": ips})
  \<close>
\<close>

definition wildcard_skip :: "bool \<Rightarrow> string set \<Rightarrow> string list \<Rightarrow> bool" where
  "wildcard_skip has_wildcard wildcard_ips addrs =
     (has_wildcard \<and> wildcard_ips \<noteq> {} \<and> set addrs \<subseteq> wildcard_ips)"

fun keep_results :: "bool \<Rightarrow> string set \<Rightarrow> (string \<times> string list) list \<Rightarrow> found list" where
  "keep_results has_wildcard wildcard_ips [] = []"
| "keep_results has_wildcard wildcard_ips ((n, addrs) # rest) =
     (if addrs \<noteq> [] then
        (if wildcard_skip has_wildcard wildcard_ips addrs
         then keep_results has_wildcard wildcard_ips rest
         else \<lparr>name = n, ips = addrs\<rparr> # keep_results has_wildcard wildcard_ips rest)
      else keep_results has_wildcard wildcard_ips rest)"


section \<open>Facts about strings\<close>

lemma lower_char_idem: "lower_char (lower_char c) = lower_char c"
  unfolding lower_char_def Let_def using nat_of_char_less_256[of c]
  by auto

lemma isspace_lower_char: "isspace (lower_char c) = isspace c"
  unfolding lower_char_def Let_def isspace_def using nat_of_char_less_256[of c]
  by auto

lemma lower_char_dot: "lower_char c = CHR ''.'' \<longleftrightarrow> c = CHR ''.''"
  unfolding lower_char_def Let_def using nat_of_char_less_256[of c]
  by (auto simp: char_of_eq_iff take_bit_eq_mod)

lemma lower_idem: "lower (lower s) = lower s"
  by (simp add: lower_def lower_char_idem)

lemma lower_Nil_iff: "lower s = [] \<longleftrightarrow> s = []"
  by (simp add: lower_def)

lemma last_lower: "s \<noteq> [] \<Longrightarrow> last (lower s) = lower_char (last s)"
  by (simp add: lower_def last_map)

lemma hd_lower: "s \<noteq> [] \<Longrightarrow> hd (lower s) = lower_char (hd s)"
  by (simp add: lower_def hd_map)

lemma butlast_lower: "butlast (lower s) = lower (butlast s)"
  by (simp add: lower_def map_butlast)

lemma endswith_dot: "endswith n ''.'' \<longleftrightarrow> n \<noteq> [] \<and> last n = CHR ''.''"
proof (cases n rule: rev_cases)
  case Nil
  then show ?thesis by (simp add: endswith_def)
next
  case (snoc ys y)
  then show ?thesis by (auto simp add: endswith_def)
qed

lemma rstrip_of_Nil: "rstrip_of p [] = []"
  by (simp add: rstrip_of_def)

lemma length_rstrip_of: "length (rstrip_of p s) \<le> length s"
  unfolding rstrip_of_def by (metis length_dropWhile_le length_rev)

lemma rstrip_of_snoc:
  "rstrip_of p (ys @ [y]) = (if p y then rstrip_of p ys else ys @ [y])"
  by (simp add: rstrip_of_def)

lemma rstrip_of_id: "s = [] \<or> \<not> p (last s) \<Longrightarrow> rstrip_of p s = s"
  by (cases s rule: rev_cases) (auto simp: rstrip_of_def)

lemma rstrip_of_last: "rstrip_of p s = [] \<or> \<not> p (last (rstrip_of p s))"
  by (induction s rule: rev_induct) (auto simp: rstrip_of_snoc rstrip_of_Nil)

lemma rstrip_of_prefix: "s = rstrip_of p s @ rev (takeWhile p (rev s))"
proof -
  have "rev (takeWhile p (rev s) @ dropWhile p (rev s)) = s"
    by (simp only: takeWhile_dropWhile_id rev_rev_ident)
  then show ?thesis by (simp only: rstrip_of_def rev_append)
qed

lemma rstrip_of_hd: "rstrip_of p s \<noteq> [] \<Longrightarrow> hd (rstrip_of p s) = hd s"
  using rstrip_of_prefix[of s p] by (metis hd_append2)

lemma lstrip_of_hd: "lstrip_of p s = [] \<or> \<not> p (hd (lstrip_of p s))"
  unfolding lstrip_of_def by (metis hd_dropWhile)

lemma strip_ends:
  "strip x = [] \<or> (\<not> isspace (hd (strip x)) \<and> \<not> isspace (last (strip x)))"
proof (cases "strip x = []")
  case True
  then show ?thesis by simp
next
  case False
  then have ne: "rstrip_of isspace (lstrip_of isspace x) \<noteq> []" by (simp add: strip_def)
  then have l: "lstrip_of isspace x \<noteq> []" by (auto simp: rstrip_of_def)
  have "hd (strip x) = hd (lstrip_of isspace x)"
    using rstrip_of_hd[OF ne] by (simp add: strip_def)
  moreover have "\<not> isspace (hd (lstrip_of isspace x))"
    using lstrip_of_hd[of isspace x] l by simp
  moreover have "\<not> isspace (last (strip x))"
    using rstrip_of_last[of isspace "lstrip_of isspace x"] ne by (simp add: strip_def)
  ultimately show ?thesis by simp
qed

lemma strip_id: "s = [] \<or> (\<not> isspace (hd s) \<and> \<not> isspace (last s)) \<Longrightarrow> strip s = s"
proof -
  assume a: "s = [] \<or> (\<not> isspace (hd s) \<and> \<not> isspace (last s))"
  then have "lstrip_of isspace s = s"
    by (cases s) (auto simp: lstrip_of_def)
  then show ?thesis using a rstrip_of_id[of s isspace] by (auto simp add: strip_def)
qed

lemma length_strip: "length (strip s) \<le> length s"
  unfolding strip_def rstrip_of_def lstrip_of_def
  by (metis length_dropWhile_le length_rev order_trans)

lemma length_normalize: "length (normalize_str s) \<le> length s"
  using length_strip[of s]
  by (auto simp: normalize_str_def Let_def lower_def)

lemma strip_trailing_space: "s \<noteq> [] \<Longrightarrow> isspace (last s) \<Longrightarrow> length (strip s) < length s"
proof -
  assume a: "s \<noteq> []" "isspace (last s)"
  let ?l = "lstrip_of isspace s"
  have le: "length ?l \<le> length s" by (simp add: lstrip_of_def length_dropWhile_le)
  show ?thesis
  proof (cases "?l = []")
    case True
    then show ?thesis using a by (simp add: strip_def rstrip_of_Nil)
  next
    case False
    then have "last ?l = last s"
      unfolding lstrip_of_def by (metis append_Nil2 last_appendR takeWhile_dropWhile_id)
    then obtain ys y where l: "?l = ys @ [y]" and y: "isspace y"
      using False a by (metis append_butlast_last_id)
    have "length (strip s) \<le> length ys"
      using l y length_rstrip_of[of isspace ys] by (simp add: strip_def rstrip_of_snoc)
    then show ?thesis using l le by simp
  qed
qed

lemma strip_leading_space: "s \<noteq> [] \<Longrightarrow> isspace (hd s) \<Longrightarrow> length (strip s) < length s"
proof -
  assume a: "s \<noteq> []" "isspace (hd s)"
  then obtain c cs where s: "s = c # cs" and c: "isspace c" by (cases s) auto
  have "length (lstrip_of isspace s) \<le> length cs"
    using s c by (simp add: lstrip_of_def length_dropWhile_le)
  then show ?thesis
    using length_rstrip_of[of isspace "lstrip_of isspace s"] s by (simp add: strip_def)
qed

lemma length_normalize_strip: "length (normalize_str s) \<le> length (strip s)"
  by (auto simp: normalize_str_def Let_def lower_def strip_def rstrip_of_Nil lstrip_of_def)

lemma normalize_fixed_iff:
  "normalize_str y = y \<longleftrightarrow>
     (y = [] \<or> (\<not> isspace (hd y) \<and> \<not> isspace (last y) \<and> last y \<noteq> CHR ''.'' \<and> lower y = y))"
proof (cases "y = []")
  case True
  then show ?thesis by (simp add: normalize_str_def)
next
  case ne: False
  show ?thesis
  proof (cases "isspace (hd y) \<or> isspace (last y)")
    case True
    then have "length (strip y) < length y"
      using ne strip_leading_space strip_trailing_space by blast
    then have "length (normalize_str y) < length y"
      using length_normalize_strip[of y] by simp
    then show ?thesis using True ne by auto
  next
    case False
    then have "strip y = y" by (simp add: strip_id)
    moreover have "butlast (lower y) \<noteq> y"
    proof
      assume "butlast (lower y) = y"
      then have "length (butlast (lower y)) = length y" by simp
      then have "length y - 1 = length y" by (simp add: lower_def)
      moreover have "0 < length y" using ne by simp
      ultimately show False by arith
    qed
    ultimately show ?thesis using ne False
      by (auto simp: normalize_str_def Let_def endswith_dot lower_Nil_iff last_lower lower_char_dot)
  qed
qed


lemma normalize_shape:
  "normalize_str x = [] \<or> (\<not> isspace (hd (normalize_str x)) \<and> lower (normalize_str x) = normalize_str x)"
proof (cases "normalize_str x = []")
  case True
  then show ?thesis by simp
next
  case False
  then have x: "x \<noteq> []" by (auto simp: normalize_str_def)
  let ?s = "strip x"
  have sne: "?s \<noteq> []" using False x by (auto simp: normalize_str_def Let_def lower_def split: if_splits)
  have hds: "\<not> isspace (hd ?s)" using strip_ends[of x] sne by simp
  have "hd (normalize_str x) = lower_char (hd ?s)"
  proof (cases "endswith (lower ?s) ''.''")
    case True
    then have n: "normalize_str x = butlast (lower ?s)" using x by (simp add: normalize_str_def)
    then have "butlast (lower ?s) \<noteq> []" using False by simp
    then have "hd (butlast (lower ?s)) = hd (lower ?s)"
      by (cases "lower ?s") (auto split: if_splits)
    then show ?thesis using n sne by (simp add: hd_lower)
  next
    case False
    then show ?thesis using x sne by (simp add: normalize_str_def hd_lower)
  qed
  moreover have "lower (normalize_str x) = normalize_str x"
    using x by (simp add: normalize_str_def Let_def butlast_lower[symmetric] lower_idem)
  ultimately show ?thesis using hds by (simp add: isspace_lower_char)
qed

lemma dot_after_iff:
  "dot_after_dot_or_space x \<longleftrightarrow>
     (normalize_str x \<noteq> [] \<and> (last (normalize_str x) = CHR ''.'' \<or> isspace (last (normalize_str x))))"
proof (cases "x = []")
  case True
  then show ?thesis by (simp add: dot_after_dot_or_space_def normalize_str_def strip_def rstrip_of_Nil lstrip_of_def)
next
  case x: False
  show ?thesis
  proof (cases "strip x" rule: rev_cases)
    case Nil
    then show ?thesis using x
      by (simp add: dot_after_dot_or_space_def normalize_str_def lower_def endswith_def)
  next
    case (snoc ys y)
    note s1 = snoc
    have ysp: "\<not> isspace y" using strip_ends[of x] s1 by simp
    show ?thesis
    proof (cases ys rule: rev_cases)
      case Nil
      then show ?thesis using x s1 ysp
        by (auto simp: dot_after_dot_or_space_def normalize_str_def lower_def endswith_dot
                 lower_char_dot isspace_lower_char Let_def)
    next
      case (snoc zs z)
      then show ?thesis using x s1 ysp
        by (auto simp: dot_after_dot_or_space_def normalize_str_def lower_def endswith_dot
                 lower_char_dot isspace_lower_char butlast_append Let_def)
    qed
  qed
qed


section \<open>normalize\<close>

text \<open>
  C2 (as amended): \<open>normalize(normalize(x)) == normalize(x)\<close> holds for exactly the strings
  \<open>x\<close>, the empty string among them, whose trimmed form does not end in a dot that follows
  another dot or a whitespace character. \<open>normalize\<close> strips one trailing dot in a call and
  does not trim again after it.
\<close>

theorem normalize_idempotent_iff:
  "normalize_str (normalize_str x) = normalize_str x \<longleftrightarrow> \<not> dot_after_dot_or_space x"
  using normalize_shape[of x] by (auto simp: normalize_fixed_iff dot_after_iff)

theorem normalize_idempotent_iff_witness:
  "normalize_str (normalize_str '' WWW.Example.COM. '') = ''www.example.com''
   \<and> normalize_str (normalize_str []) = normalize_str []"
proof -
  have a: "\<not> dot_after_dot_or_space '' WWW.Example.COM. ''" by code_simp
  have b: "normalize_str '' WWW.Example.COM. '' = ''www.example.com''" by code_simp
  have c: "\<not> dot_after_dot_or_space []" by code_simp
  from normalize_idempotent_iff[of "'' WWW.Example.COM. ''"] normalize_idempotent_iff[of "[]"] a b c
  show ?thesis by simp
qed

text \<open>
  C2 as stated fails: \<open>normalize("a..")\<close> is \<open>"a."\<close>, and normalizing that gives \<open>"a"\<close>.
\<close>

theorem normalize_not_idempotent:
  "normalize_str ''a..'' = ''a.'' \<and> normalize_str (normalize_str ''a..'') = ''a''
   \<and> normalize_str (normalize_str ''a..'') \<noteq> normalize_str ''a..''"
  by code_simp


section \<open>The wildcard filter of the command line\<close>

lemma keep_results_iff:
  "\<lparr>name = n, ips = addrs\<rparr> \<in> set (keep_results hw wips res_map) \<longleftrightarrow>
     (n, addrs) \<in> set res_map \<and> addrs \<noteq> [] \<and> \<not> wildcard_skip hw wips addrs"
  by (induction hw wips res_map rule: keep_results.induct) auto

text \<open>
  C5: an entry of \<open>res_map\<close> with addresses is left out of the final results if and only if
  \<open>has_wildcard\<close> is true, its address list is not empty and every address is in
  \<open>wildcard_ips\<close>.
\<close>

theorem wildcard_filter:
  assumes "(n, addrs) \<in> set res_map"
  shows "(addrs \<noteq> [] \<and> \<lparr>name = n, ips = addrs\<rparr> \<notin> set (keep_results hw wips res_map))
         \<longleftrightarrow> (hw \<and> addrs \<noteq> [] \<and> set addrs \<subseteq> wips)"
  using assms by (auto simp: keep_results_iff wildcard_skip_def)

text \<open>
  With \<open>has_wildcard\<close> and \<open>wildcard_ips = {"1.2.3.4"}\<close>, a candidate with the addresses
  \<open>["1.2.3.4"]\<close> is dropped and one with \<open>["1.2.3.4", "5.6.7.8"]\<close> is kept.
\<close>

theorem wildcard_filter_witness:
  "\<lparr>name = ''a.example.com'', ips = [''1.2.3.4'']\<rparr>
     \<notin> set (keep_results True {''1.2.3.4''}
          [(''a.example.com'', [''1.2.3.4'']), (''b.example.com'', [''1.2.3.4'', ''5.6.7.8''])])
   \<and> \<lparr>name = ''b.example.com'', ips = [''1.2.3.4'', ''5.6.7.8'']\<rparr>
     \<in> set (keep_results True {''1.2.3.4''}
          [(''a.example.com'', [''1.2.3.4'']), (''b.example.com'', [''1.2.3.4'', ''5.6.7.8''])])"
  using wildcard_filter[of "''a.example.com''" "[''1.2.3.4'']"
          "[(''a.example.com'', [''1.2.3.4'']), (''b.example.com'', [''1.2.3.4'', ''5.6.7.8''])]"
          True "{''1.2.3.4''}"]
        wildcard_filter[of "''b.example.com''" "[''1.2.3.4'', ''5.6.7.8'']"
          "[(''a.example.com'', [''1.2.3.4'']), (''b.example.com'', [''1.2.3.4'', ''5.6.7.8''])]"
          True "{''1.2.3.4''}"]
  by simp

section \<open>The passive collector\<close>

lemma attempts_list: "[1..<RETRY_ATTEMPTS + 1] = [1, 2, 3]"
  by (simp add: RETRY_ATTEMPTS_def upt_rec)

lemma retry_loop_failed:
  "failed (get attempt) \<Longrightarrow>
   retry_loop get (attempt # rest) last_exc eff =
     (if attempt < RETRY_ATTEMPTS
      then retry_loop get rest True
             (eff\<lparr>requests := requests eff @ [attempt],
                  sleeps := sleeps eff @ [RETRY_BACKOFF_BASE ^ (attempt - 1)]\<rparr>)
      else retry_loop get rest True (eff\<lparr>requests := requests eff @ [attempt]\<rparr>))"
  by (cases "get attempt") (simp_all add: failed_def Let_def)

lemma retry_exhausted:
  assumes "failed (get 1)" and "failed (get 2)" and "failed (get 3)"
  shows "crt_sh_run domain get
         = (Inr [], \<lparr>requests = [1, 2, 3],
                     sleeps = [RETRY_BACKOFF_BASE ^ 0, RETRY_BACKOFF_BASE ^ 1]\<rparr>)"
proof -
  have loop: "retry_loop get [1, 2, 3] False \<lparr>requests = [], sleeps = []\<rparr>
        = (Loop_left None True, \<lparr>requests = [1, 2, 3], sleeps = [RETRY_BACKOFF_BASE ^ 0, RETRY_BACKOFF_BASE ^ 1]\<rparr>)"
    using assms
    by (simp add: retry_loop_failed RETRY_ATTEMPTS_def del: retry_loop.simps(2) One_nat_def)
  show ?thesis
    unfolding crt_sh_run_def attempts_list loop by simp
qed

lemma failed_fetch_of: "failed (fetch_of r) \<longleftrightarrow> raises r"
  by (auto simp: failed_def fetch_of_def raises_def split: response.splits option.splits)

text \<open>
  C8 (as amended): when each of the three attempts raises (no response, a status from 400
  to 599, or a body that is not JSON), the collector has sent three requests, has slept
  \<open>1.5 ^ 0\<close> and \<open>1.5 ^ 1\<close> seconds between them, and returns the empty list; no exception
  leaves it.
\<close>

theorem collector_gives_up:
  assumes "raises (resp 1)" and "raises (resp 2)" and "raises (resp 3)"
  shows "crt_sh_collect domain (\<lambda>k. fetch_of (resp k)) = Inr []
         \<and> requests (snd (crt_sh_run domain (\<lambda>k. fetch_of (resp k)))) = [1, 2, 3]
         \<and> sleeps (snd (crt_sh_run domain (\<lambda>k. fetch_of (resp k))))
             = [RETRY_BACKOFF_BASE ^ 0, RETRY_BACKOFF_BASE ^ 1]
         \<and> sleeps (snd (crt_sh_run domain (\<lambda>k. fetch_of (resp k)))) = [1, 3 / 2]"
proof -
  have run: "crt_sh_run domain (\<lambda>k. fetch_of (resp k))
        = (Inr [], \<lparr>requests = [1, 2, 3],
                    sleeps = [RETRY_BACKOFF_BASE ^ 0, RETRY_BACKOFF_BASE ^ 1]\<rparr>)"
    using assms by (intro retry_exhausted) (simp_all add: failed_fetch_of)
  show ?thesis
    unfolding crt_sh_collect_def run by (simp add: RETRY_BACKOFF_BASE_def)
qed

text \<open>No response, then a 503, then a 200 whose body is not JSON.\<close>

theorem collector_gives_up_witness:
  "crt_sh_collect ''example.com''
     (\<lambda>k. fetch_of (if k = 1 then No_response else if k = 2 then Response 503 None
                     else Response 200 None)) = Inr []
   \<and> requests (snd (crt_sh_run ''example.com''
     (\<lambda>k. fetch_of (if k = 1 then No_response else if k = 2 then Response 503 None
                     else Response 200 None)))) = [1, 2, 3]"
  using collector_gives_up[of "\<lambda>k. if k = 1 then No_response else if k = 2 then Response 503 None
                     else Response 200 None" "''example.com''"]
  by (simp add: raises_def)

text \<open>
  C8 as stated fails: a response with the status 302, which is not 2xx, and a JSON array as
  its body is no failure. \<open>raise_for_status\<close> lets it pass, one request is sent and the
  hosts of the body are returned.
\<close>

theorem status_outside_2xx_accepted:
  "\<not> (200 \<le> (302 :: int) \<and> (302 :: int) < 300)
   \<and> crt_sh_collect ''example.com''
        (\<lambda>k. fetch_of (Response 302
               (Some (JArr [JObj [(''name_value'', JStr ''www.example.com'')]]))))
      = Inr [''www.example.com'']
   \<and> requests (snd (crt_sh_run ''example.com''
        (\<lambda>k. fetch_of (Response 302
               (Some (JArr [JObj [(''name_value'', JStr ''www.example.com'')]])))))) = [1]"
  by code_simp

text \<open>
  C6 (as amended): for \<open>example.com\<close> and the answer
  \<open>[{"name_value": "*.example.com\nwww.example.com"}]\<close> the collector returns
  \<open>["example.com", "www.example.com"]\<close>: the wildcard line collapses to the domain itself,
  which ends with the domain and is kept.
\<close>

theorem crt_sh_wildcard_and_www:
  "crt_sh_collect ''example.com''
     (\<lambda>k. Body (JArr [JObj [(''name_value'', JStr (''*.example.com'' @ [CHR 0x0A] @ ''www.example.com''))]]))
   = Inr [''example.com'', ''www.example.com'']"
  by code_simp

text \<open>C6 as stated fails: the result is not the one name \<open>www.example.com\<close>.\<close>

theorem crt_sh_not_only_www:
  "crt_sh_collect ''example.com''
     (\<lambda>k. Body (JArr [JObj [(''name_value'', JStr (''*.example.com'' @ [CHR 0x0A] @ ''www.example.com''))]]))
   \<noteq> Inr [''www.example.com'']"
  by code_simp
lemma lstrip_of_all: "list_all p pre \<Longrightarrow> s = [] \<or> \<not> p (hd s) \<Longrightarrow> lstrip_of p (pre @ s) = s"
  by (induction pre) (auto simp: lstrip_of_def intro: dropWhile_eq_self_iff[THEN iffD2] simp: neq_Nil_conv)

lemma rstrip_of_all: "list_all p suf \<Longrightarrow> s = [] \<or> \<not> p (last s) \<Longrightarrow> rstrip_of p (s @ suf) = s"
  by (induction suf rule: rev_induct) (auto simp: rstrip_of_snoc rstrip_of_id simp flip: append_assoc)


lemma lstrip_of_everything: "list_all p s \<Longrightarrow> lstrip_of p s = []"
  by (simp add: lstrip_of_def list_all_iff)

lemma candidate_core:
  assumes "list_all star_or_dot pre" and "list_all is_dot dots"
    and "core = [] \<or> (\<not> star_or_dot (hd core) \<and> \<not> is_dot (last core))"
  shows "candidate (pre @ core @ dots) = lower core"
proof (cases "core = []")
  case True
  have "list_all star_or_dot dots"
    using assms(2) by (auto simp: list_all_iff is_dot_def star_or_dot_def)
  then have "list_all star_or_dot (pre @ core @ dots)"
    using assms(1) True by simp
  then show ?thesis
    using True by (simp add: candidate_def lstrip_of_everything rstrip_of_Nil lower_def)
next
  case False
  then have "\<not> star_or_dot (hd (core @ dots))" and l: "\<not> is_dot (last core)"
    using assms(3) by auto
  then have "lstrip_of star_or_dot (pre @ core @ dots) = core @ dots"
    using lstrip_of_all[OF assms(1), of "core @ dots"] by simp
  moreover have "rstrip_of is_dot (core @ dots) = core"
    using rstrip_of_all[OF assms(2), of core] l by simp
  ultimately show ?thesis by (simp add: candidate_def)
qed

lemma line_decomposition:
  "\<exists>pre core dots. s = pre @ core @ dots \<and> list_all star_or_dot pre \<and> list_all is_dot dots
     \<and> (core = [] \<or> (\<not> star_or_dot (hd core) \<and> \<not> is_dot (last core)))"
proof -
  let ?pre = "takeWhile star_or_dot s"
  let ?r = "dropWhile star_or_dot s"
  let ?core = "rstrip_of is_dot ?r"
  let ?dots = "rev (takeWhile is_dot (rev ?r))"
  have 1: "s = ?pre @ ?core @ ?dots"
    using rstrip_of_prefix[of ?r is_dot] by (metis takeWhile_dropWhile_id)
  have 2: "list_all star_or_dot ?pre"
    by (simp add: list_all_iff) (metis set_takeWhileD)
  have 3: "list_all is_dot ?dots"
    by (simp add: list_all_iff) (metis set_takeWhileD)
  have 4: "?core = [] \<or> (\<not> star_or_dot (hd ?core) \<and> \<not> is_dot (last ?core))"
  proof (cases "?core = []")
    case True
    then show ?thesis by simp
  next
    case False
    have r: "?r \<noteq> []"
    proof
      assume "?r = []"
      then have "?core = []" by (simp only: rstrip_of_Nil)
      with False show False by simp
    qed
    have "hd ?core = hd ?r" using False by (rule rstrip_of_hd)
    moreover have "\<not> star_or_dot (hd ?r)"
      using lstrip_of_hd[of star_or_dot s] r unfolding lstrip_of_def by blast
    moreover have "\<not> is_dot (last ?core)"
      using rstrip_of_last[of is_dot ?r] False by simp
    ultimately show ?thesis by simp
  qed
  from 1 2 3 4 show ?thesis by blast
qed

text \<open>
  C10: every trimmed line is a run of \<open>*\<close> and \<open>.\<close>, a core that starts with neither and
  does not end in a dot, and a run of dots (\<open>line_decomposition\<close>). The candidate is the
  lower-cased core, all of both runs stripped, and the ends-with-domain and character-class
  checks are made on it.
\<close>

theorem collect_strips_all_markers:
  assumes "strip line0 = pre @ core @ dots"
    and "list_all star_or_dot pre" and "list_all is_dot dots"
    and "core = [] \<or> (\<not> star_or_dot (hd core) \<and> \<not> is_dot (last core))"
  shows "candidate (strip line0) = lower core
         \<and> line_hosts domain line0 =
             (if strip line0 = [] \<or> CHR ''@'' \<in> set (strip line0) then []
              else if endswith (lower core) domain \<and> is_likely_subdomain (lower core)
                   then [normalize_str (lower core)] else [])"
proof -
  have c: "candidate (strip line0) = lower core"
    using candidate_core[OF assms(2,3,4)] assms(1) by simp
  show ?thesis
    unfolding line_hosts_def Let_def c by simp
qed

text \<open>The line \<open>*.*.sub.example.com\<close> contributes \<open>sub.example.com\<close>.\<close>

theorem collect_strips_all_markers_witness:
  "candidate (strip ''*.*.sub.example.com'') = lower ''sub.example.com''
   \<and> line_hosts ''example.com'' ''*.*.sub.example.com'' = [''sub.example.com'']
   \<and> crt_sh_collect ''example.com''
        (\<lambda>k. Body (JArr [JObj [(''name_value'', JStr ''*.*.sub.example.com'')]]))
      = Inr [''sub.example.com'']"
proof -
  have s: "strip ''*.*.sub.example.com'' = ''*.*.'' @ ''sub.example.com'' @ []" by code_simp
  have p: "list_all star_or_dot ''*.*.''" by code_simp
  have d: "list_all is_dot []" by simp
  have k: "''sub.example.com'' = [] \<or>
           (\<not> star_or_dot (hd ''sub.example.com'') \<and> \<not> is_dot (last ''sub.example.com''))"
    by code_simp
  have e: "(if strip ''*.*.sub.example.com'' = [] \<or> CHR ''@'' \<in> set (strip ''*.*.sub.example.com'')
            then []
            else if endswith (lower ''sub.example.com'') ''example.com''
                    \<and> is_likely_subdomain (lower ''sub.example.com'')
                 then [normalize_str (lower ''sub.example.com'')] else [])
           = [''sub.example.com'']" by code_simp
  have r: "crt_sh_collect ''example.com''
        (\<lambda>k. Body (JArr [JObj [(''name_value'', JStr ''*.*.sub.example.com'')]]))
      = Inr [''sub.example.com'']" by code_simp
  from collect_strips_all_markers[OF s p d k, of "''example.com''"] e r
  show ?thesis by simp
qed


section \<open>The bulk resolver\<close>

lemma dom_fold_store:
  "dom (fold (\<lambda>(fut, n) m. m(n \<mapsto> result_or_empty (run fut n))) fs m0) = dom m0 \<union> snd ` set fs"
  by (induction fs arbitrary: m0) (auto simp: rev_image_eqI)

lemma fold_store_value:
  "k \<in> snd ` set fs \<Longrightarrow>
   \<exists>i. (i, k) \<in> set fs \<and>
       fold (\<lambda>(fut, n) m. m(n \<mapsto> result_or_empty (run fut n))) fs m0 k
         = Some (result_or_empty (run i k))"
proof (induction fs arbitrary: m0 rule: rev_induct)
  case Nil
  then show ?case by simp
next
  case (snoc x xs)
  obtain j n where x: "x = (j, n)" by (cases x)
  show ?case
  proof (cases "n = k")
    case True
    then show ?thesis using x by auto
  next
    case False
    then have "k \<in> snd ` set xs" using snoc.prems x by auto
    from snoc.IH[OF this, of m0] show ?thesis using False x by auto
  qed
qed

lemma in_set_futures:
  "(i, n) \<in> set (zip [0..<length names] names) \<longleftrightarrow> i < length names \<and> names ! i = n"
proof
  assume "(i, n) \<in> set (zip [0..<length names] names)"
  then obtain k where "k < length names" "[0..<length names] ! k = i" "names ! k = n"
    by (auto simp: in_set_zip)
  then show "i < length names \<and> names ! i = n" by simp
next
  assume a: "i < length names \<and> names ! i = n"
  then have "[0..<length names] ! i = i \<and> names ! i = n \<and> i < length names" by simp
  then show "(i, n) \<in> set (zip [0..<length names] names)"
    unfolding in_set_zip by (intro exI[of _ i]) simp
qed

lemma snd_set_futures: "snd ` set (zip [0..<length names] names) = set names"
  by (metis length_upt map_snd_zip minus_nat.diff_0 set_map)

text \<open>
  C1 (as amended): with a positive \<open>concurrency\<close>, whatever the tasks do and in whatever
  order they finish, \<open>bulk_resolve\<close> returns a mapping whose keys are exactly the input
  names. Every name has an entry, holding the result of one of the lookups of that name, or
  the empty list if that lookup raised. There are as many entries as distinct names: \<open>N\<close>
  for \<open>N\<close> names without repetition, and then each entry is that of the name's own lookup.
\<close>

theorem bulk_resolve_entries:
  assumes "0 < concurrency"
    and "mset (as_completed (zip [0..<length names] names)) = mset (zip [0..<length names] names)"
  shows "\<exists>m. bulk_resolve as_completed run names concurrency = Inr m
           \<and> dom m = set names
           \<and> card (dom m) = card (set names)
           \<and> (\<forall>n \<in> set names. \<exists>i < length names. names ! i = n
                  \<and> m n = Some (result_or_empty (run i n)))
           \<and> (distinct names \<longrightarrow> card (dom m) = length names
                  \<and> (\<forall>i < length names. m (names ! i) = Some (result_or_empty (run i (names ! i)))))"
proof -
  let ?fs = "zip [0..<length names] names"
  let ?m = "fold (\<lambda>(fut, n) m. m(n \<mapsto> result_or_empty (run fut n))) (as_completed ?fs) Map.empty"
  have set_eq: "set (as_completed ?fs) = set ?fs"
    using assms(2) by (rule mset_eq_setD)
  have r: "bulk_resolve as_completed run names concurrency = Inr ?m"
    using assms(1) by (simp add: bulk_resolve_def)
  have d: "dom ?m = set names"
    by (simp add: dom_fold_store set_eq snd_set_futures)
  have v: "\<exists>i < length names. names ! i = n \<and> ?m n = Some (result_or_empty (run i n))"
    if "n \<in> set names" for n
  proof -
    have "n \<in> snd ` set (as_completed ?fs)" using that by (simp add: set_eq snd_set_futures)
    from fold_store_value[OF this, of run Map.empty]
    obtain i where "(i, n) \<in> set ?fs" and "?m n = Some (result_or_empty (run i n))"
      using set_eq by auto
    then show ?thesis using in_set_futures[of i n names] by auto
  qed
  have dist: "card (dom ?m) = length names
      \<and> (\<forall>i < length names. ?m (names ! i) = Some (result_or_empty (run i (names ! i))))"
    if dn: "distinct names"
  proof -
    have "?m (names ! i) = Some (result_or_empty (run i (names ! i)))" if i: "i < length names" for i
    proof -
      obtain j where j: "j < length names" "names ! j = names ! i"
          "?m (names ! i) = Some (result_or_empty (run j (names ! i)))"
        using v[of "names ! i"] i by auto
      then have "j = i" using dn i by (simp add: nth_eq_iff_index_eq)
      then show ?thesis using j by simp
    qed
    then show ?thesis using d dn by (simp add: distinct_card)
  qed
  show ?thesis using r d v dist by (intro exI[of _ ?m]) auto
qed

text \<open>Two names, the tasks finishing in reverse order, the second lookup raising.\<close>

theorem bulk_resolve_entries_witness:
  "\<exists>m. bulk_resolve rev (\<lambda>i n. if i = 1 then Inl (Raised ''timeout'') else Inr [''10.0.0.1''])
          [''a.example.com'', ''b.example.com''] 20 = Inr m
       \<and> card (dom m) = 2
       \<and> m ''a.example.com'' = Some [''10.0.0.1'']
       \<and> m ''b.example.com'' = Some []"
proof -
  have c: "(0::int) < 20" by simp
  have p: "mset (rev (zip [0..<length [''a.example.com'', ''b.example.com'']] [''a.example.com'', ''b.example.com'']))
         = mset (zip [0..<length [''a.example.com'', ''b.example.com'']] [''a.example.com'', ''b.example.com''])"
    by simp
  from bulk_resolve_entries[of 20 rev "[''a.example.com'', ''b.example.com'']"
        "\<lambda>i n. if i = 1 then Inl (Raised ''timeout'') else Inr [''10.0.0.1'']", OF c p]
  obtain m where m: "bulk_resolve rev (\<lambda>i n. if i = 1 then Inl (Raised ''timeout'') else Inr [''10.0.0.1''])
          [''a.example.com'', ''b.example.com''] 20 = Inr m"
     and d: "distinct [''a.example.com'', ''b.example.com''] \<longrightarrow> card (dom m) = length [''a.example.com'', ''b.example.com'']
                  \<and> (\<forall>i < length [''a.example.com'', ''b.example.com'']. m ([''a.example.com'', ''b.example.com''] ! i)
                       = Some (result_or_empty ((\<lambda>i n. if i = 1 then Inl (Raised ''timeout'') else Inr [''10.0.0.1'']) i ([''a.example.com'', ''b.example.com''] ! i))))"
    by blast
  have dd: "distinct [''a.example.com'', ''b.example.com'']" by simp
  from d dd have 1: "card (dom m) = 2" by simp
  from d dd have all: "\<forall>i < length [''a.example.com'', ''b.example.com'']. m ([''a.example.com'', ''b.example.com''] ! i)
                       = Some (result_or_empty ((\<lambda>i n. if i = 1 then Inl (Raised ''timeout'') else Inr [''10.0.0.1'']) i ([''a.example.com'', ''b.example.com''] ! i)))"
    by blast
  have 2: "m ''a.example.com'' = Some [''10.0.0.1'']"
    using all[rule_format, of 0] by (simp add: result_or_empty_def)
  have 3: "m ''b.example.com'' = Some []"
    using all[rule_format, of 1] by (simp add: result_or_empty_def)
  from m 1 2 3 show ?thesis by blast
qed

text \<open>
  C1 as stated fails: a name given twice has one entry, so two input names give a mapping
  with one entry; and a pool of no workers cannot be built, so no mapping is returned.
\<close>

theorem bulk_resolve_repeated_name:
  "bulk_resolve (\<lambda>fs. fs) (\<lambda>i n. Inr [''10.0.0.1'']) [''a.example.com'', ''a.example.com''] 20
     = Inr [''a.example.com'' \<mapsto> [''10.0.0.1'']]
   \<and> card (dom [''a.example.com'' \<mapsto> [''10.0.0.1'']]) = 1
   \<and> length [''a.example.com'', ''a.example.com''] = 2
   \<and> bulk_resolve (\<lambda>fs. fs) (\<lambda>i n. Inr [''10.0.0.1'']) [''a.example.com''] 0 = Inl ValueError"
  by (simp add: bulk_resolve_def result_or_empty_def upt_rec)


section \<open>The bruteforce engine\<close>

lemma scan_pass_eq:
  "scan_pass is_done run pend (ys, np) =
     (ys @ map (normalize_str \<circ> snd) (filter (\<lambda>t. is_done (fst t) \<and> success run t) pend),
      np @ filter (\<lambda>t. \<not> is_done (fst t)) pend)"
  by (induction is_done run pend "(ys, np)" arbitrary: ys np rule: scan_pass.induct)
     (auto simp: success_def)

lemma drain_eq: "drain run pend = map (normalize_str \<circ> snd) (filter (success run) pend)"
  by (induction run pend rule: drain.induct) (auto simp: success_def)

lemma step_no_candidate:
  "candidate_of domain raw = None \<Longrightarrow>
   step domain max_pending skips run done_at st raw = st\<lparr>processed := processed st + 1\<rparr>"
  by (auto simp: candidate_of_def step_def Let_def split: if_splits)

lemma step_skipped:
  "candidate_of domain raw = Some c \<Longrightarrow> normalize_str c \<in> skips \<Longrightarrow>
   step domain max_pending skips run done_at st raw = st\<lparr>processed := processed st + 1\<rparr>"
  by (auto simp: candidate_of_def step_def Let_def split: if_splits)

lemma step_submit:
  "candidate_of domain raw = Some c \<Longrightarrow> normalize_str c \<notin> skips \<Longrightarrow>
   step domain max_pending skips run done_at st raw =
     (let p = processed st + 1; pend = pending_futures st @ [(p, c)]
      in if int (length pend) \<ge> max_pending
         then st\<lparr>processed := p,
                 pending_futures := filter (\<lambda>t. \<not> done_at p (fst t)) pend,
                 submitted := submitted st @ [(p, c)],
                 yielded := yielded st @ map (normalize_str \<circ> snd)
                              (filter (\<lambda>t. done_at p (fst t) \<and> success run t) pend),
                 scans := scans st @ [(p, length pend)]\<rparr>
         else st\<lparr>processed := p, pending_futures := pend,
                 submitted := submitted st @ [(p, c)]\<rparr>)"
  by (auto simp: candidate_of_def step_def Let_def scan_pass_eq split: if_splits)

lemma read_lines_snoc:
  "read_lines domain max_pending skips run done_at (raws @ [raw]) =
     step domain max_pending skips run done_at
       (read_lines domain max_pending skips run done_at raws) raw"
  by (simp add: read_lines_def)

lemma read_lines_Nil: "read_lines domain max_pending skips run done_at [] = initial"
  by (simp add: read_lines_def)

lemma step_cases:
  obtains (none) "candidate_of domain raw = None"
  | (skipped) c where "candidate_of domain raw = Some c" "normalize_str c \<in> skips"
  | (submit) c where "candidate_of domain raw = Some c" "normalize_str c \<notin> skips"
  by (cases "candidate_of domain raw") auto

lemma processed_read_lines:
  "processed (read_lines domain max_pending skips run done_at raws) = length raws"
proof (induction raws rule: rev_induct)
  case Nil
  then show ?case by (simp add: read_lines_Nil initial_def)
next
  case (snoc raw raws)
  show ?case
    by (cases rule: step_cases[where domain=domain and raw=raw and skips=skips])
       (simp_all add: read_lines_snoc step_no_candidate step_skipped step_submit Let_def snoc)
qed


lemma skip_names_eq: "skip_names skip_set = normalize_str ` (entries skip_set - {[]})"
  by (auto simp: skip_names_def entries_def split: option.splits)

lemma rstrip_of_append_keep:
  "a \<noteq> [] \<Longrightarrow> \<not> p (last a) \<Longrightarrow> rstrip_of p (a @ b) = a @ rstrip_of p b"
proof (induction b rule: rev_induct)
  case Nil
  then show ?case by (simp add: rstrip_of_id rstrip_of_Nil)
next
  case (snoc x xs)
  have "rstrip_of p ((a @ xs) @ [x]) = (if p x then rstrip_of p (a @ xs) else (a @ xs) @ [x])"
    by (rule rstrip_of_snoc)
  then show ?case using snoc by (simp add: rstrip_of_snoc)
qed

lemma not_isspace_dot: "\<not> isspace CHR ''.''"
  by (simp add: isspace_def)

lemma strip_candidate:
  assumes "w \<noteq> []" and "\<not> isspace (hd w)"
  shows "strip (w @ ''.'' @ domain) = w @ ''.'' @ rstrip_of isspace domain"
proof -
  have l: "lstrip_of isspace (w @ ''.'' @ domain) = w @ ''.'' @ domain"
    using assms by (cases w) (simp_all add: lstrip_of_def)
  have "rstrip_of isspace ((w @ ''.'') @ domain) = (w @ ''.'') @ rstrip_of isspace domain"
    by (rule rstrip_of_append_keep) (simp_all add: not_isspace_dot)
  then show ?thesis using l by (simp add: strip_def)
qed

lemma candidate_of_SomeD:
  "candidate_of domain raw = Some c \<Longrightarrow>
   c = strip raw @ ''.'' @ domain \<and> strip raw \<noteq> [] \<and> \<not> isspace (hd (strip raw))"
  using strip_ends[of raw] by (auto simp: candidate_of_def Let_def split: if_splits)

lemma candidate_norm_nonempty:
  assumes "candidate_of domain raw = Some c"
  shows "normalize_str c \<noteq> []"
proof -
  from candidate_of_SomeD[OF assms]
  have c: "c = strip raw @ ''.'' @ domain" and w: "strip raw \<noteq> []" "\<not> isspace (hd (strip raw))"
    by auto
  have "strip c = strip raw @ ''.'' @ rstrip_of isspace domain"
    unfolding c using w by (rule strip_candidate)
  then have "2 \<le> length (lower (strip c))" using w by (cases "strip raw") (simp_all add: lower_def)
  then have "1 \<le> length (normalize_str c)"
    using c w by (auto simp: normalize_str_def Let_def)
  then show ?thesis by auto
qed

lemma read_lines_all_skipped:
  assumes "\<forall>raw \<in> set raws. \<forall>c. candidate_of domain raw = Some c \<longrightarrow> normalize_str c \<in> skips"
  shows "read_lines domain max_pending skips run done_at raws = initial\<lparr>processed := length raws\<rparr>"
  using assms
proof (induction raws rule: rev_induct)
  case Nil
  then show ?case by (simp add: read_lines_Nil initial_def)
next
  case (snoc raw raws)
  then have IH: "read_lines domain max_pending skips run done_at raws = initial\<lparr>processed := length raws\<rparr>"
    by simp
  show ?case
  proof (cases "candidate_of domain raw")
    case None
    then show ?thesis by (simp add: read_lines_snoc step_no_candidate IH)
  next
    case (Some c)
    then have "normalize_str c \<in> skips" using snoc.prems by simp
    then show ?thesis using Some by (simp add: read_lines_snoc step_skipped IH)
  qed
qed

lemma candidate_norm_stable:
  assumes "candidate_of domain raw = Some c"
    and "domain \<noteq> []" and "\<not> isspace (last domain)" and "last domain \<noteq> CHR ''.''"
  shows "normalize_str (normalize_str c) = normalize_str c"
proof -
  from candidate_of_SomeD[OF assms(1)]
  have c: "c = strip raw @ ''.'' @ domain" and w: "strip raw \<noteq> []" "\<not> isspace (hd (strip raw))"
    by auto
  have ne: "c \<noteq> []" and hd: "hd c = hd (strip raw)" and last: "last c = last domain"
    using c w assms(2) by auto
  have "strip c = c" using hd last w assms(3) by (simp add: strip_id)
  then have n: "normalize_str c = lower c"
    using ne last assms(4) by (simp add: normalize_str_def endswith_dot lower_Nil_iff last_lower lower_char_dot)
  have "normalize_str (lower c) = lower c"
    unfolding normalize_fixed_iff
    using ne hd last w assms(3,4)
    by (simp add: hd_lower last_lower isspace_lower_char lower_char_dot lower_idem)
  then show ?thesis by (simp add: n)
qed

lemma step_scan:
  assumes "candidate_of domain raw = Some c" and "normalize_str c \<notin> skips"
    and "max_pending \<le> int (length (pending_futures st @ [(processed st + 1, c)]))"
  shows "processed (step domain max_pending skips run done_at st raw) = processed st + 1"
    and "pending_futures (step domain max_pending skips run done_at st raw)
         = filter (\<lambda>t. \<not> done_at (processed st + 1) (fst t)) (pending_futures st @ [(processed st + 1, c)])"
    and "submitted (step domain max_pending skips run done_at st raw) = submitted st @ [(processed st + 1, c)]"
    and "yielded (step domain max_pending skips run done_at st raw)
         = yielded st @ map (normalize_str \<circ> snd)
             (filter (\<lambda>t. done_at (processed st + 1) (fst t) \<and> success run t)
                (pending_futures st @ [(processed st + 1, c)]))"
    and "scans (step domain max_pending skips run done_at st raw)
         = scans st @ [(processed st + 1, length (pending_futures st @ [(processed st + 1, c)]))]"
    and "raised (step domain max_pending skips run done_at st raw) = raised st"
  unfolding step_submit[OF assms(1,2)] Let_def if_P[OF assms(3)] by simp_all

lemma step_append:
  assumes "candidate_of domain raw = Some c" and "normalize_str c \<notin> skips"
    and "\<not> max_pending \<le> int (length (pending_futures st @ [(processed st + 1, c)]))"
  shows "processed (step domain max_pending skips run done_at st raw) = processed st + 1"
    and "pending_futures (step domain max_pending skips run done_at st raw)
         = pending_futures st @ [(processed st + 1, c)]"
    and "submitted (step domain max_pending skips run done_at st raw) = submitted st @ [(processed st + 1, c)]"
    and "yielded (step domain max_pending skips run done_at st raw) = yielded st"
    and "scans (step domain max_pending skips run done_at st raw) = scans st"
    and "raised (step domain max_pending skips run done_at st raw) = raised st"
  unfolding step_submit[OF assms(1,2)] Let_def if_not_P[OF assms(3)] by simp_all


lemma read_lines_invariant:
  "(\<forall>t \<in> set (submitted (read_lines domain max_pending skips run done_at raws)).
       normalize_str (snd t) \<notin> skips)
   \<and> set (pending_futures (read_lines domain max_pending skips run done_at raws))
       \<subseteq> set (submitted (read_lines domain max_pending skips run done_at raws))
   \<and> set (yielded (read_lines domain max_pending skips run done_at raws))
       \<subseteq> (normalize_str \<circ> snd) ` set (submitted (read_lines domain max_pending skips run done_at raws))"
proof (induction raws rule: rev_induct)
  case Nil
  then show ?case by (simp add: read_lines_Nil initial_def)
next
  case (snoc raw raws)
  let ?st = "read_lines domain max_pending skips run done_at raws"
  let ?p = "processed ?st + 1"
  show ?case
  proof (cases rule: step_cases[where domain=domain and raw=raw and skips=skips])
    case none
    then show ?thesis using snoc by (simp add: read_lines_snoc step_no_candidate)
  next
    case (skipped c)
    then show ?thesis using snoc by (simp add: read_lines_snoc step_skipped)
  next
    case (submit c)
    let ?pend = "pending_futures ?st @ [(?p, c)]"
    show ?thesis
    proof (cases "max_pending \<le> int (length ?pend)")
      case True
      note f = step_scan[OF submit True, where run=run and done_at=done_at]
      show ?thesis unfolding read_lines_snoc f(2) f(3) f(4)
        using snoc submit(2) by auto
    next
      case False
      note f = step_append[OF submit False, where run=run and done_at=done_at]
      show ?thesis unfolding read_lines_snoc f(2) f(3) f(4)
        using snoc submit(2) by auto
    qed
  qed
qed

lemma mset_filter_split:
  "mset (filter (\<lambda>t. d t \<and> s t) xs) + mset (filter s (filter (\<lambda>t. \<not> d t) xs)) = mset (filter s xs)"
proof (induction xs)
  case Nil
  then show ?case by simp
next
  case (Cons x xs)
  then show ?case by (cases "d x"; cases "s x") (simp_all del: mset_filter)
qed

lemma read_lines_yield_balance:
  "mset (yielded (read_lines domain max_pending skips run done_at raws))
   + mset (map (normalize_str \<circ> snd) (filter (success run)
            (pending_futures (read_lines domain max_pending skips run done_at raws))))
   = mset (map (normalize_str \<circ> snd) (filter (success run)
            (submitted (read_lines domain max_pending skips run done_at raws))))"
proof (induction raws rule: rev_induct)
  case Nil
  then show ?case by (simp add: read_lines_Nil initial_def)
next
  case (snoc raw raws)
  let ?st = "read_lines domain max_pending skips run done_at raws"
  let ?p = "processed ?st + 1"
  let ?f = "normalize_str \<circ> snd"
  show ?case
  proof (cases rule: step_cases[where domain=domain and raw=raw and skips=skips])
    case none
    then show ?thesis using snoc by (simp add: read_lines_snoc step_no_candidate)
  next
    case (skipped c)
    then show ?thesis using snoc by (simp add: read_lines_snoc step_skipped)
  next
    case (submit c)
    let ?pend = "pending_futures ?st @ [(?p, c)]"
    let ?t = "mset (map ?f (filter (success run) [(?p, c)]))"
    have "image_mset ?f (mset (filter (\<lambda>t. done_at ?p (fst t) \<and> success run t) ?pend)
            + mset (filter (success run) (filter (\<lambda>t. \<not> done_at ?p (fst t)) ?pend)))
          = image_mset ?f (mset (filter (success run) ?pend))"
      by (simp only: mset_filter_split)
    then have split: "mset (map ?f (filter (\<lambda>t. done_at ?p (fst t) \<and> success run t) ?pend))
          + mset (map ?f (filter (success run) (filter (\<lambda>t. \<not> done_at ?p (fst t)) ?pend)))
          = mset (map ?f (filter (success run) ?pend))"
      by (simp only: image_mset_union mset_map)
    have pa: "mset (map ?f (filter (success run) ?pend))
          = mset (map ?f (filter (success run) (pending_futures ?st))) + ?t"
      by (simp only: filter_append map_append mset_append)
    have sa: "mset (map ?f (filter (success run) (submitted ?st @ [(?p, c)])))
          = mset (map ?f (filter (success run) (submitted ?st))) + ?t"
      by (simp only: filter_append map_append mset_append)
    have "mset (yielded ?st) + (mset (map ?f (filter (success run) (pending_futures ?st))) + ?t)
          = (mset (yielded ?st) + mset (map ?f (filter (success run) (pending_futures ?st)))) + ?t"
      by (simp only: add.assoc)
    also have "\<dots> = mset (map ?f (filter (success run) (submitted ?st))) + ?t"
      by (simp only: snoc)
    finally have bal: "mset (yielded ?st) + mset (map ?f (filter (success run) ?pend))
          = mset (map ?f (filter (success run) (submitted ?st @ [(?p, c)])))"
      unfolding pa sa .
    show ?thesis
    proof (cases "max_pending \<le> int (length ?pend)")
      case True
      note f = step_scan[OF submit True, where run=run and done_at=done_at]
      have "mset (yielded ?st @ map ?f (filter (\<lambda>t. done_at ?p (fst t) \<and> success run t) ?pend))
              + mset (map ?f (filter (success run) (filter (\<lambda>t. \<not> done_at ?p (fst t)) ?pend)))
            = mset (yielded ?st)
              + (mset (map ?f (filter (\<lambda>t. done_at ?p (fst t) \<and> success run t) ?pend))
                 + mset (map ?f (filter (success run) (filter (\<lambda>t. \<not> done_at ?p (fst t)) ?pend))))"
        by (simp only: mset_append add.assoc)
      also have "\<dots> = mset (yielded ?st) + mset (map ?f (filter (success run) ?pend))"
        by (simp only: split)
      also have "\<dots> = mset (map ?f (filter (success run) (submitted ?st @ [(?p, c)])))"
        by (rule bal)
      finally show ?thesis unfolding read_lines_snoc f(2) f(3) f(4) .
    next
      case False
      note f = step_append[OF submit False, where run=run and done_at=done_at]
      show ?thesis unfolding read_lines_snoc f(2) f(3) f(4) by (rule bal)
    qed
  qed
qed

lemma read_lines_bound:
  "(int (length (pending_futures (read_lines domain max_pending skips run done_at raws))) < max_pending
    \<or> (\<forall>t \<in> set (pending_futures (read_lines domain max_pending skips run done_at raws)).
          scans (read_lines domain max_pending skips run done_at raws) \<noteq> []
          \<and> \<not> done_at (fst (last (scans (read_lines domain max_pending skips run done_at raws)))) (fst t)))
   \<and> (\<forall>e \<in> set (scans (read_lines domain max_pending skips run done_at raws)). max_pending \<le> int (snd e))"
proof (induction raws rule: rev_induct)
  case Nil
  then show ?case by (simp add: read_lines_Nil initial_def)
next
  case (snoc raw raws)
  let ?st = "read_lines domain max_pending skips run done_at raws"
  let ?p = "processed ?st + 1"
  show ?case
  proof (cases rule: step_cases[where domain=domain and raw=raw and skips=skips])
    case none
    then show ?thesis using snoc by (simp add: read_lines_snoc step_no_candidate)
  next
    case (skipped c)
    then show ?thesis using snoc by (simp add: read_lines_snoc step_skipped)
  next
    case (submit c)
    let ?pend = "pending_futures ?st @ [(?p, c)]"
    show ?thesis
    proof (cases "max_pending \<le> int (length ?pend)")
      case True
      note f = step_scan[OF submit True, where run=run and done_at=done_at]
      show ?thesis unfolding read_lines_snoc f(2) f(5)
        using snoc True by auto
    next
      case False
      note f = step_append[OF submit False, where run=run and done_at=done_at]
      show ?thesis unfolding read_lines_snoc f(2) f(5)
        using snoc False by auto
    qed
  qed
qed

lemma bruteforce_stream_Lines:
  "0 < concurrency \<Longrightarrow>
   bruteforce_stream domain (Lines raws) concurrency max_pending skip_set run done_at =
     (read_lines domain max_pending (skip_names skip_set) run done_at raws)
       \<lparr>yielded := yielded (read_lines domain max_pending (skip_names skip_set) run done_at raws)
                   @ map (normalize_str \<circ> snd) (filter (success run)
                       (pending_futures (read_lines domain max_pending (skip_names skip_set) run done_at raws))),
        pending_futures := []\<rparr>"
  by (simp add: bruteforce_stream_def Let_def drain_eq)

lemma bruteforce_stream_no_pool:
  "\<not> 0 < concurrency \<Longrightarrow>
   bruteforce_stream domain (Lines raws) concurrency max_pending skip_set run done_at =
     initial\<lparr>raised := Some ValueError\<rparr>"
  by (simp add: bruteforce_stream_def Let_def)

lemma bruteforce_stream_Missing:
  "bruteforce_stream domain Missing concurrency max_pending skip_set run done_at = initial"
  by (simp add: bruteforce_stream_def)

lemma bruteforce_stream_not_skipped:
  "(\<forall>t \<in> set (submitted (bruteforce_stream domain wl concurrency max_pending skip_set run done_at)).
       normalize_str (snd t) \<notin> skip_names skip_set)
   \<and> set (yielded (bruteforce_stream domain wl concurrency max_pending skip_set run done_at))
       \<subseteq> (normalize_str \<circ> snd) `
           set (submitted (bruteforce_stream domain wl concurrency max_pending skip_set run done_at))"
proof (cases wl)
  case Missing
  then show ?thesis by (simp add: bruteforce_stream_Missing initial_def)
next
  case (Lines raws)
  show ?thesis
  proof (cases "0 < concurrency")
    case False
    then show ?thesis unfolding Lines bruteforce_stream_no_pool[OF False] by (simp add: initial_def)
  next
    case True
    let ?st = "read_lines domain max_pending (skip_names skip_set) run done_at raws"
    have i: "(\<forall>t \<in> set (submitted ?st). normalize_str (snd t) \<notin> skip_names skip_set)"
      and p: "set (pending_futures ?st) \<subseteq> set (submitted ?st)"
      and y: "set (yielded ?st) \<subseteq> (normalize_str \<circ> snd) ` set (submitted ?st)"
      using read_lines_invariant[of domain max_pending "skip_names skip_set" run done_at raws]
      by blast+
    have "set (map (normalize_str \<circ> snd) (filter (success run) (pending_futures ?st)))
          \<subseteq> (normalize_str \<circ> snd) ` set (submitted ?st)"
      using p by auto
    then show ?thesis unfolding Lines bruteforce_stream_Lines[OF True] using i y by simp
  qed
qed

lemma skip_names_without_empty:
  "skip_names (map_option (filter (\<lambda>e. e \<noteq> [])) skip_set) = skip_names skip_set"
  unfolding skip_names_eq by (cases skip_set) (auto simp: entries_def)

lemma bruteforce_stream_skip_names:
  "skip_names a = skip_names b \<Longrightarrow>
   bruteforce_stream domain wl concurrency max_pending a run done_at
   = bruteforce_stream domain wl concurrency max_pending b run done_at"
  unfolding bruteforce_stream_def by (simp only:)

text \<open>
  C7 (as amended): when the canonical form of the candidate of every word (blank lines and
  comments apart) is an entry of \<open>skip_set\<close> and is itself canonical, that is unchanged by
  another \<open>normalize\<close>, the stream yields no hostname and submits no task. The canonical
  form of a candidate is canonical whenever \<open>skip_set\<close> holds normalized hostnames only, as
  its docstring asks, and, by \<open>candidate_norm_stable\<close>, whenever the domain is not empty and
  ends in neither a dot nor whitespace.
\<close>

theorem all_candidates_known:
  assumes "\<forall>raw \<in> set raws. \<forall>c. candidate_of domain raw = Some c \<longrightarrow>
             normalize_str c \<in> entries skip_set
             \<and> normalize_str (normalize_str c) = normalize_str c"
  shows "yielded (bruteforce_stream domain (Lines raws) concurrency max_pending skip_set run done_at) = []
         \<and> submitted (bruteforce_stream domain (Lines raws) concurrency max_pending skip_set run done_at) = []"
proof -
  have "\<forall>raw \<in> set raws. \<forall>c. candidate_of domain raw = Some c \<longrightarrow>
          normalize_str c \<in> skip_names skip_set"
  proof (intro ballI allI impI)
    fix raw c
    assume r: "raw \<in> set raws" and c: "candidate_of domain raw = Some c"
    then have "normalize_str c \<in> entries skip_set"
      and "normalize_str (normalize_str c) = normalize_str c"
      using assms by auto
    moreover have "normalize_str c \<noteq> []" using c by (rule candidate_norm_nonempty)
    ultimately show "normalize_str c \<in> skip_names skip_set"
      unfolding skip_names_eq by (metis Diff_iff image_eqI singletonD)
  qed
  then have "read_lines domain max_pending (skip_names skip_set) run done_at raws
             = initial\<lparr>processed := length raws\<rparr>"
    by (rule read_lines_all_skipped)
  then show ?thesis
    by (simp add: bruteforce_stream_def Let_def initial_def)
qed

theorem all_candidates_known_witness:
  "yielded (bruteforce_stream ''example.com'' (Lines [''www'' @ [CHR 0x0A], ''# names'' @ [CHR 0x0A], [CHR 0x0A], ''Mail'' @ [CHR 0x0A]])
      30 1000 (Some [''mail.example.com'', ''www.example.com'']) (\<lambda>p c. Inr [''10.0.0.1'']) (\<lambda>p f. True)) = []
   \<and> submitted (bruteforce_stream ''example.com'' (Lines [''www'' @ [CHR 0x0A], ''# names'' @ [CHR 0x0A], [CHR 0x0A], ''Mail'' @ [CHR 0x0A]])
      30 1000 (Some [''mail.example.com'', ''www.example.com'']) (\<lambda>p c. Inr [''10.0.0.1'']) (\<lambda>p f. True)) = []"
proof -
  have h: "\<forall>raw \<in> set [''www'' @ [CHR 0x0A], ''# names'' @ [CHR 0x0A], [CHR 0x0A], ''Mail'' @ [CHR 0x0A]].
          \<forall>c. candidate_of ''example.com'' raw = Some c \<longrightarrow>
             normalize_str c \<in> entries (Some [''mail.example.com'', ''www.example.com''])
             \<and> normalize_str (normalize_str c) = normalize_str c"
  proof -
    have 1: "candidate_of ''example.com'' (''www'' @ [CHR 0x0A]) = Some ''www.example.com''" by code_simp
    have 2: "candidate_of ''example.com'' (''# names'' @ [CHR 0x0A]) = None" by code_simp
    have 3: "candidate_of ''example.com'' [CHR 0x0A] = None" by code_simp
    have 4: "candidate_of ''example.com'' (''Mail'' @ [CHR 0x0A]) = Some ''Mail.example.com''" by code_simp
    have 5: "normalize_str ''www.example.com'' = ''www.example.com''" by code_simp
    have 6: "normalize_str ''Mail.example.com'' = ''mail.example.com''" by code_simp
    have 7: "normalize_str ''mail.example.com'' = ''mail.example.com''" by code_simp
    show ?thesis
      unfolding entries_def using 1 2 3 4 5 6 7 by simp
  qed
  from all_candidates_known[OF h] show ?thesis .
qed

text \<open>
  C7 as stated fails: for the domain \<open>example.com..\<close> the candidate of \<open>www\<close> has the
  canonical form \<open>www.example.com.\<close>; with that string as the one entry of \<open>skip_set\<close> the
  engine compares against \<open>www.example.com\<close>, submits the candidate and yields it.
\<close>

theorem known_form_not_canonical:
  "candidate_of ''example.com..'' (''www'' @ [CHR 0x0A]) = Some ''www.example.com..''
   \<and> normalize_str ''www.example.com..'' = ''www.example.com.''
   \<and> normalize_str ''www.example.com..'' \<in> entries (Some [''www.example.com.''])
   \<and> submitted (bruteforce_stream ''example.com..'' (Lines [''www'' @ [CHR 0x0A]]) 30 1000
        (Some [''www.example.com.'']) (\<lambda>p c. Inr [''10.0.0.1'']) (\<lambda>p f. True))
      = [(1, ''www.example.com..'')]
   \<and> yielded (bruteforce_stream ''example.com..'' (Lines [''www'' @ [CHR 0x0A]]) 30 1000
        (Some [''www.example.com.'']) (\<lambda>p c. Inr [''10.0.0.1'']) (\<lambda>p f. True))
      = [''www.example.com.'']"
  by code_simp

text \<open>
  C9: the engine normalizes the entries of \<open>skip_set\<close> itself. For every non-empty entry,
  canonical or not, no candidate with the same canonical form is ever submitted or yielded;
  and empty entries are ignored: the run is the same with them removed.
\<close>

theorem skip_entries_are_normalized:
  assumes "s \<in> entries skip_set" and "s \<noteq> []"
  shows "(\<forall>t \<in> set (submitted (bruteforce_stream domain wl concurrency max_pending skip_set run done_at)).
            normalize_str (snd t) \<noteq> normalize_str s)
         \<and> normalize_str s \<notin> set (yielded (bruteforce_stream domain wl concurrency max_pending skip_set run done_at))
         \<and> bruteforce_stream domain wl concurrency max_pending skip_set run done_at
           = bruteforce_stream domain wl concurrency max_pending
               (map_option (filter (\<lambda>e. e \<noteq> [])) skip_set) run done_at"
proof -
  let ?B = "bruteforce_stream domain wl concurrency max_pending skip_set run done_at"
  have s: "normalize_str s \<in> skip_names skip_set"
    unfolding skip_names_eq using assms by blast
  have i: "\<forall>t \<in> set (submitted ?B). normalize_str (snd t) \<notin> skip_names skip_set"
    and y: "set (yielded ?B) \<subseteq> (normalize_str \<circ> snd) ` set (submitted ?B)"
    using bruteforce_stream_not_skipped[of domain wl concurrency max_pending skip_set run done_at]
    by blast+
  have 1: "\<forall>t \<in> set (submitted ?B). normalize_str (snd t) \<noteq> normalize_str s"
    using i s by metis
  have 2: "normalize_str s \<notin> set (yielded ?B)"
  proof
    assume "normalize_str s \<in> set (yielded ?B)"
    then have "normalize_str s \<in> (normalize_str \<circ> snd) ` set (submitted ?B)" using y by blast
    then obtain t where "t \<in> set (submitted ?B)" "normalize_str s = normalize_str (snd t)"
      by auto
    then show False using 1 by metis
  qed
  have 3: "?B = bruteforce_stream domain wl concurrency max_pending
               (map_option (filter (\<lambda>e. e \<noteq> [])) skip_set) run done_at"
    by (rule bruteforce_stream_skip_names) (simp add: skip_names_without_empty)
  from 1 2 3 show ?thesis by blast
qed

text \<open>The entry \<open>WWW.Example.COM.\<close> beside an empty entry: \<open>www\<close> is skipped, \<open>mail\<close> is not.\<close>

theorem skip_entries_are_normalized_witness:
  "submitted (bruteforce_stream ''example.com'' (Lines [''www'' @ [CHR 0x0A], ''mail'' @ [CHR 0x0A]])
      30 1000 (Some [''WWW.Example.COM.'', []]) (\<lambda>p c. Inr [''10.0.0.1'']) (\<lambda>p f. True))
     = [(2, ''mail.example.com'')]
   \<and> ''www.example.com'' \<notin> set (yielded (bruteforce_stream ''example.com''
      (Lines [''www'' @ [CHR 0x0A], ''mail'' @ [CHR 0x0A]])
      30 1000 (Some [''WWW.Example.COM.'', []]) (\<lambda>p c. Inr [''10.0.0.1'']) (\<lambda>p f. True)))"
proof -
  have e: "''WWW.Example.COM.'' \<in> entries (Some [''WWW.Example.COM.'', []])"
    by (simp add: entries_def)
  have n: "''WWW.Example.COM.'' \<noteq> []" by simp
  have v: "normalize_str ''WWW.Example.COM.'' = ''www.example.com''" by code_simp
  have b: "submitted (bruteforce_stream ''example.com'' (Lines [''www'' @ [CHR 0x0A], ''mail'' @ [CHR 0x0A]])
      30 1000 (Some [''WWW.Example.COM.'', []]) (\<lambda>p c. Inr [''10.0.0.1'']) (\<lambda>p f. True))
     = [(2, ''mail.example.com'')]" by code_simp
  from skip_entries_are_normalized[OF e n, of "''example.com''"
         "Lines [''www'' @ [CHR 0x0A], ''mail'' @ [CHR 0x0A]]" 30 1000
         "\<lambda>p c. Inr [''10.0.0.1'']" "\<lambda>p f. True"]
  have "normalize_str ''WWW.Example.COM.'' \<notin> set (yielded (bruteforce_stream ''example.com''
      (Lines [''www'' @ [CHR 0x0A], ''mail'' @ [CHR 0x0A]])
      30 1000 (Some [''WWW.Example.COM.'', []]) (\<lambda>p c. Inr [''10.0.0.1'']) (\<lambda>p f. True)))"
    by blast
  then have "''www.example.com'' \<notin> set (yielded (bruteforce_stream ''example.com''
      (Lines [''www'' @ [CHR 0x0A], ''mail'' @ [CHR 0x0A]])
      30 1000 (Some [''WWW.Example.COM.'', []]) (\<lambda>p c. Inr [''10.0.0.1'']) (\<lambda>p f. True)))"
    unfolding v .
  with b show ?thesis by blast
qed

text \<open>
  C3 (as amended), for a pool that can be built. After a submission the engine scans the
  pending list exactly when its size, the new task counted, is at least \<open>max_pending\<close>; the
  scan yields the canonical name of every finished task with a non-empty result, in list
  order, drops the finished tasks and keeps the unfinished ones. So after every line the list
  is shorter than \<open>max_pending\<close> or holds only tasks that the last scan found unfinished: it
  can grow beyond \<open>max_pending\<close>. Every scan ran on a list of at least \<open>max_pending\<close> tasks.
  At the end of input the final drain yields the canonical name of every remaining task with
  a non-empty result, so that each submitted task with a non-empty result is yielded once.
\<close>

theorem polling_backpressure:
  assumes "0 < concurrency"
  shows "(candidate_of domain raw = Some c \<and> normalize_str c \<notin> skip_names skip_set \<longrightarrow>
            step domain max_pending (skip_names skip_set) run done_at st raw =
              (if max_pending \<le> int (length (pending_futures st @ [(processed st + 1, c)]))
               then st\<lparr>processed := processed st + 1,
                       pending_futures := filter (\<lambda>t. \<not> done_at (processed st + 1) (fst t))
                                            (pending_futures st @ [(processed st + 1, c)]),
                       submitted := submitted st @ [(processed st + 1, c)],
                       yielded := yielded st @ map (normalize_str \<circ> snd)
                                    (filter (\<lambda>t. done_at (processed st + 1) (fst t) \<and> success run t)
                                       (pending_futures st @ [(processed st + 1, c)])),
                       scans := scans st @ [(processed st + 1,
                                  length (pending_futures st @ [(processed st + 1, c)]))]\<rparr>
               else st\<lparr>processed := processed st + 1,
                       pending_futures := pending_futures st @ [(processed st + 1, c)],
                       submitted := submitted st @ [(processed st + 1, c)]\<rparr>))
         \<and> (int (length (pending_futures
                 (read_lines domain max_pending (skip_names skip_set) run done_at (take k raws))))
               < max_pending
             \<or> (\<forall>t \<in> set (pending_futures
                   (read_lines domain max_pending (skip_names skip_set) run done_at (take k raws))).
                  scans (read_lines domain max_pending (skip_names skip_set) run done_at (take k raws)) \<noteq> []
                  \<and> \<not> done_at (fst (last (scans
                         (read_lines domain max_pending (skip_names skip_set) run done_at (take k raws)))))
                       (fst t)))
         \<and> (\<forall>e \<in> set (scans (bruteforce_stream domain (Lines raws) concurrency max_pending
                               skip_set run done_at)). max_pending \<le> int (snd e))
         \<and> yielded (bruteforce_stream domain (Lines raws) concurrency max_pending skip_set run done_at)
             = yielded (read_lines domain max_pending (skip_names skip_set) run done_at raws)
               @ map (normalize_str \<circ> snd) (filter (success run)
                   (pending_futures (read_lines domain max_pending (skip_names skip_set) run done_at raws)))
         \<and> mset (yielded (bruteforce_stream domain (Lines raws) concurrency max_pending skip_set run done_at))
             = mset (map (normalize_str \<circ> snd) (filter (success run)
                 (submitted (bruteforce_stream domain (Lines raws) concurrency max_pending
                    skip_set run done_at))))"
proof -
  let ?sk = "skip_names skip_set"
  let ?st = "read_lines domain max_pending ?sk run done_at raws"
  let ?B = "bruteforce_stream domain (Lines raws) concurrency max_pending skip_set run done_at"
  have a: "candidate_of domain raw = Some c \<and> normalize_str c \<notin> ?sk \<longrightarrow>
            step domain max_pending ?sk run done_at st raw =
              (if max_pending \<le> int (length (pending_futures st @ [(processed st + 1, c)]))
               then st\<lparr>processed := processed st + 1,
                       pending_futures := filter (\<lambda>t. \<not> done_at (processed st + 1) (fst t))
                                            (pending_futures st @ [(processed st + 1, c)]),
                       submitted := submitted st @ [(processed st + 1, c)],
                       yielded := yielded st @ map (normalize_str \<circ> snd)
                                    (filter (\<lambda>t. done_at (processed st + 1) (fst t) \<and> success run t)
                                       (pending_futures st @ [(processed st + 1, c)])),
                       scans := scans st @ [(processed st + 1,
                                  length (pending_futures st @ [(processed st + 1, c)]))]\<rparr>
               else st\<lparr>processed := processed st + 1,
                       pending_futures := pending_futures st @ [(processed st + 1, c)],
                       submitted := submitted st @ [(processed st + 1, c)]\<rparr>)"
  proof
    assume h: "candidate_of domain raw = Some c \<and> normalize_str c \<notin> ?sk"
    then have 1: "candidate_of domain raw = Some c" and 2: "normalize_str c \<notin> ?sk" by blast+
    show "step domain max_pending ?sk run done_at st raw =
              (if max_pending \<le> int (length (pending_futures st @ [(processed st + 1, c)]))
               then st\<lparr>processed := processed st + 1,
                       pending_futures := filter (\<lambda>t. \<not> done_at (processed st + 1) (fst t))
                                            (pending_futures st @ [(processed st + 1, c)]),
                       submitted := submitted st @ [(processed st + 1, c)],
                       yielded := yielded st @ map (normalize_str \<circ> snd)
                                    (filter (\<lambda>t. done_at (processed st + 1) (fst t) \<and> success run t)
                                       (pending_futures st @ [(processed st + 1, c)])),
                       scans := scans st @ [(processed st + 1,
                                  length (pending_futures st @ [(processed st + 1, c)]))]\<rparr>
               else st\<lparr>processed := processed st + 1,
                       pending_futures := pending_futures st @ [(processed st + 1, c)],
                       submitted := submitted st @ [(processed st + 1, c)]\<rparr>)"
      unfolding step_submit[OF 1 2] Let_def by (rule refl)
  qed
  have b: "int (length (pending_futures (read_lines domain max_pending ?sk run done_at (take k raws))))
               < max_pending
             \<or> (\<forall>t \<in> set (pending_futures (read_lines domain max_pending ?sk run done_at (take k raws))).
                  scans (read_lines domain max_pending ?sk run done_at (take k raws)) \<noteq> []
                  \<and> \<not> done_at (fst (last (scans
                         (read_lines domain max_pending ?sk run done_at (take k raws))))) (fst t))"
    using read_lines_bound[of domain max_pending ?sk run done_at "take k raws"] by blast
  have B: "?B = ?st\<lparr>yielded := yielded ?st @ map (normalize_str \<circ> snd)
                                  (filter (success run) (pending_futures ?st)),
                    pending_futures := []\<rparr>"
    using assms by (rule bruteforce_stream_Lines)
  have sc: "scans ?B = scans ?st" and su: "submitted ?B = submitted ?st"
    and y: "yielded ?B = yielded ?st @ map (normalize_str \<circ> snd)
                                  (filter (success run) (pending_futures ?st))"
    unfolding B by simp_all
  have c: "\<forall>e \<in> set (scans ?B). max_pending \<le> int (snd e)"
    unfolding sc using read_lines_bound[of domain max_pending ?sk run done_at raws] by blast
  have d: "mset (yielded ?B) = mset (map (normalize_str \<circ> snd) (filter (success run) (submitted ?B)))"
    unfolding y su mset_append
    by (rule read_lines_yield_balance)
  from a b c y d show ?thesis by blast
qed

text \<open>
  Five candidates, \<open>max_pending = 2\<close>, every task finished one line after its submission, the
  third lookup failing.
\<close>

theorem polling_backpressure_witness:
  "yielded (bruteforce_stream ''example.com''
        (Lines [''a'' @ [CHR 0x0A], ''b'' @ [CHR 0x0A], ''c'' @ [CHR 0x0A], ''d'' @ [CHR 0x0A],
                ''e'' @ [CHR 0x0A]]) 30 2 None
        (\<lambda>p c. if c = ''c.example.com'' then Inl (Raised ''timeout'') else Inr [''10.0.0.1''])
        (\<lambda>p f. f < p))
     = [''a.example.com'', ''b.example.com'', ''d.example.com'', ''e.example.com'']
   \<and> mset (yielded (bruteforce_stream ''example.com''
        (Lines [''a'' @ [CHR 0x0A], ''b'' @ [CHR 0x0A], ''c'' @ [CHR 0x0A], ''d'' @ [CHR 0x0A],
                ''e'' @ [CHR 0x0A]]) 30 2 None
        (\<lambda>p c. if c = ''c.example.com'' then Inl (Raised ''timeout'') else Inr [''10.0.0.1''])
        (\<lambda>p f. f < p)))
     = mset (map (normalize_str \<circ> snd)
         (filter (success (\<lambda>p c. if c = ''c.example.com'' then Inl (Raised ''timeout'') else Inr [''10.0.0.1'']))
            (submitted (bruteforce_stream ''example.com''
        (Lines [''a'' @ [CHR 0x0A], ''b'' @ [CHR 0x0A], ''c'' @ [CHR 0x0A], ''d'' @ [CHR 0x0A],
                ''e'' @ [CHR 0x0A]]) 30 2 None
        (\<lambda>p c. if c = ''c.example.com'' then Inl (Raised ''timeout'') else Inr [''10.0.0.1''])
        (\<lambda>p f. f < p)))))"
proof -
  have c: "(0::int) < 30" by simp
  have y: "yielded (bruteforce_stream ''example.com''
        (Lines [''a'' @ [CHR 0x0A], ''b'' @ [CHR 0x0A], ''c'' @ [CHR 0x0A], ''d'' @ [CHR 0x0A],
                ''e'' @ [CHR 0x0A]]) 30 2 None
        (\<lambda>p c. if c = ''c.example.com'' then Inl (Raised ''timeout'') else Inr [''10.0.0.1''])
        (\<lambda>p f. f < p))
     = [''a.example.com'', ''b.example.com'', ''d.example.com'', ''e.example.com'']"
    by code_simp
  from polling_backpressure[OF c, of _ _ _ None 2 _ _ _ _
        "[''a'' @ [CHR 0x0A], ''b'' @ [CHR 0x0A], ''c'' @ [CHR 0x0A], ''d'' @ [CHR 0x0A], ''e'' @ [CHR 0x0A]]"]
  have "mset (yielded (bruteforce_stream ''example.com''
        (Lines [''a'' @ [CHR 0x0A], ''b'' @ [CHR 0x0A], ''c'' @ [CHR 0x0A], ''d'' @ [CHR 0x0A],
                ''e'' @ [CHR 0x0A]]) 30 2 None
        (\<lambda>p c. if c = ''c.example.com'' then Inl (Raised ''timeout'') else Inr [''10.0.0.1''])
        (\<lambda>p f. f < p)))
     = mset (map (normalize_str \<circ> snd)
         (filter (success (\<lambda>p c. if c = ''c.example.com'' then Inl (Raised ''timeout'') else Inr [''10.0.0.1'']))
            (submitted (bruteforce_stream ''example.com''
        (Lines [''a'' @ [CHR 0x0A], ''b'' @ [CHR 0x0A], ''c'' @ [CHR 0x0A], ''d'' @ [CHR 0x0A],
                ''e'' @ [CHR 0x0A]]) 30 2 None
        (\<lambda>p c. if c = ''c.example.com'' then Inl (Raised ''timeout'') else Inr [''10.0.0.1''])
        (\<lambda>p f. f < p)))))"
    by blast
  with y show ?thesis by blast
qed

text \<open>
  C3 as stated fails: with \<open>max_pending = 2\<close> and tasks that have not finished when scanned,
  the scan pass of the third line starts on three pending tasks, and all three are still
  pending afterwards.
\<close>

theorem pending_exceeds_max_pending:
  "scans (bruteforce_stream ''example.com''
        (Lines [''a'' @ [CHR 0x0A], ''b'' @ [CHR 0x0A], ''c'' @ [CHR 0x0A]]) 30 2 None
        (\<lambda>p c. Inr [''10.0.0.1'']) (\<lambda>p f. False))
     = [(2, 2), (3, 3)]
   \<and> length (pending_futures (read_lines ''example.com'' 2 (skip_names None)
        (\<lambda>p c. Inr [''10.0.0.1'']) (\<lambda>p f. False)
        [''a'' @ [CHR 0x0A], ''b'' @ [CHR 0x0A], ''c'' @ [CHR 0x0A]])) = 3"
  by code_simp


section \<open>The name resolver\<close>

lemma set_first_occurrences: "set (first_occurrences xs) = set xs"
  by (induction xs rule: first_occurrences.induct) auto

lemma distinct_first_occurrences: "distinct (first_occurrences xs)"
  by (induction xs rule: first_occurrences.induct) (auto simp: set_first_occurrences)

lemma dedup_into_eq:
  "dedup_into deduped xs = deduped @ first_occurrences (filter (\<lambda>x. x \<notin> set deduped) xs)"
proof (induction xs arbitrary: deduped)
  case Nil
  then show ?case by simp
next
  case (Cons x xs)
  have f: "filter (\<lambda>y. y \<notin> set (deduped @ [x])) xs
           = filter (\<lambda>y. y \<noteq> x) (filter (\<lambda>y. y \<notin> set deduped) xs)"
    by (induction xs) auto
  show ?case
  proof (cases "x \<in> set deduped")
    case True
    then show ?thesis using Cons[of deduped] by simp
  next
    case False
    then have "dedup_into deduped (x # xs) = dedup_into (deduped @ [x]) xs" by simp
    also have "\<dots> = (deduped @ [x]) @ first_occurrences (filter (\<lambda>y. y \<notin> set (deduped @ [x])) xs)"
      by (rule Cons)
    also have "\<dots> = deduped @ first_occurrences (filter (\<lambda>y. y \<notin> set deduped) (x # xs))"
      unfolding f using False by simp
    finally show ?thesis .
  qed
qed

lemma dedup_into_first: "dedup_into [] xs = first_occurrences xs"
  by (simp add: dedup_into_eq)

lemma sent_safe_resolve:
  "sent (snd (safe_resolve resolver hop n rd st)) = sent st @ [(hop, n, rd)]"
  by (simp add: safe_resolve_def)

lemma sent_extend_results: "sent (extend_results xs st) = sent st"
  by (simp add: extend_results_def)

lemma resolve_cname_log:
  "0 \<le> depth \<Longrightarrow>
     \<exists>new. sent (resolve_cname resolver max_depth target_name depth st) = sent st @ new
           \<and> list_all (within_depth max_depth) new"
  and for_cnames_log:
  "0 \<le> depth \<Longrightarrow> depth < max_depth \<Longrightarrow>
     \<exists>new. sent (for_cnames resolver max_depth depth ts st) = sent st @ new
           \<and> list_all (within_depth max_depth) new"
proof (induction resolver max_depth target_name depth st and resolver max_depth depth ts st
       rule: resolve_cname_for_cnames.induct)
  case (1 resolver max_depth target_name depth st)
  show ?case
  proof (cases "max_depth \<le> depth")
    case True
    then show ?thesis by simp
  next
    case False
    obtain cnames st1 where q: "safe_resolve resolver (nat depth) target_name CNAME st = (cnames, st1)"
      by (cases "safe_resolve resolver (nat depth) target_name CNAME st")
    have s1: "sent st1 = sent st @ [(nat depth, target_name, CNAME)]"
      using sent_safe_resolve[of resolver "nat depth" target_name CNAME st] q by simp
    from "1.IH"[OF False q[symmetric] "1.prems"] False
    obtain new where n: "sent (for_cnames resolver max_depth depth cnames st1) = sent st1 @ new"
      "list_all (within_depth max_depth) new" by auto
    have "within_depth max_depth (nat depth, target_name, CNAME)"
      using False "1.prems" by (simp add: within_depth_def)
    then show ?thesis using False q n s1 by simp
  qed
next
  case (2 resolver max_depth depth st)
  then show ?case by simp
next
  case (3 resolver max_depth depth t0 rest st)
  let ?t = "rstrip_of is_dot t0"
  show ?case
  proof (cases "?t \<in> seen st")
    case True
    then show ?thesis using 3 by simp
  next
    case False
    let ?s0 = "st\<lparr>results := results st @ [?t], seen := insert ?t (seen st)\<rparr>"
    obtain t_a st1 where q1: "safe_resolve resolver (nat depth + 1) ?t A ?s0 = (t_a, st1)"
      by (cases "safe_resolve resolver (nat depth + 1) ?t A ?s0")
    obtain t_aaaa st2 where q2: "safe_resolve resolver (nat depth + 1) ?t AAAA (extend_results t_a st1) = (t_aaaa, st2)"
      by (cases "safe_resolve resolver (nat depth + 1) ?t AAAA (extend_results t_a st1)")
    let ?s3 = "extend_results t_aaaa st2"
    let ?s4 = "resolve_cname resolver max_depth ?t (depth + 1) ?s3"
    have s1: "sent st1 = sent st @ [(nat depth + 1, ?t, A)]"
      using sent_safe_resolve[of resolver "nat depth + 1" ?t A ?s0] q1 by simp
    have s2: "sent st2 = sent st1 @ [(nat depth + 1, ?t, AAAA)]"
      using sent_safe_resolve[of resolver "nat depth + 1" ?t AAAA "extend_results t_a st1"] q2
      by (simp add: sent_extend_results)
    have d1: "0 \<le> depth + 1" using "3.prems" by simp
    from "3.IH"(1)[OF refl False q1[symmetric] q2[symmetric] d1]
    obtain new1 where n1: "sent ?s4 = sent ?s3 @ new1" "list_all (within_depth max_depth) new1"
      by auto
    from "3.IH"(2)[OF refl False q1[symmetric] q2[symmetric] "3.prems"]
    obtain new2 where n2: "sent (for_cnames resolver max_depth depth rest ?s4) = sent ?s4 @ new2"
      "list_all (within_depth max_depth) new2"
      by auto
    have w: "within_depth max_depth (nat depth + 1, ?t, A)"
            "within_depth max_depth (nat depth + 1, ?t, AAAA)"
      using "3.prems" by (simp_all add: within_depth_def)
    have r: "for_cnames resolver max_depth depth (t0 # rest) st
             = for_cnames resolver max_depth depth rest ?s4"
      using False q1 q2 by (simp add: Let_def)
    have "sent (for_cnames resolver max_depth depth (t0 # rest) st)
          = sent st @ ([(nat depth + 1, ?t, A), (nat depth + 1, ?t, AAAA)] @ new1 @ new2)"
      unfolding r n2(1) n1(1) sent_extend_results s2 s1 by simp
    moreover have "list_all (within_depth max_depth)
                     ([(nat depth + 1, ?t, A), (nat depth + 1, ?t, AAAA)] @ new1 @ new2)"
      using w n1(2) n2(2) by simp
    ultimately show ?thesis by blast
  qed
qed


lemma explore_log:
  "list_all (within_depth max_depth) (sent (explore resolver host max_depth))"
proof -
  let ?s0 = "\<lparr>results = [], seen = {}, sent = []\<rparr>"
  obtain a st1 where q1: "safe_resolve resolver 0 host A ?s0 = (a, st1)"
    by (cases "safe_resolve resolver 0 host A ?s0")
  obtain aaaa st2 where q2: "safe_resolve resolver 0 host AAAA (extend_results a st1) = (aaaa, st2)"
    by (cases "safe_resolve resolver 0 host AAAA (extend_results a st1)")
  have s1: "sent st1 = [(0, host, A)]"
    using sent_safe_resolve[of resolver 0 host A ?s0] q1 by simp
  have s2: "sent st2 = [(0, host, A), (0, host, AAAA)]"
    using sent_safe_resolve[of resolver 0 host AAAA "extend_results a st1"] q2 s1
    by (simp add: sent_extend_results)
  obtain new where n: "sent (resolve_cname resolver max_depth host 0 (extend_results aaaa st2))
        = sent (extend_results aaaa st2) @ new" "list_all (within_depth max_depth) new"
    using resolve_cname_log[of 0 resolver max_depth host "extend_results aaaa st2"] by auto
  have "explore resolver host max_depth = resolve_cname resolver max_depth host 0 (extend_results aaaa st2)"
    by (simp add: explore_def q1 q2)
  then have "sent (explore resolver host max_depth) = [(0, host, A), (0, host, AAAA)] @ new"
    using n(1) s2 by (simp add: sent_extend_results)
  then show ?thesis using n(2) by (simp add: within_depth_def)
qed

text \<open>
  C4: for every hostname, every \<open>max_depth\<close> and every behaviour of the resolver, answers
  that raise, cycle or never end a chain among them, \<open>resolve_name_any\<close> returns a list (the
  recursion ends: \<open>resolve_cname\<close> is a total function). The list holds the first
  occurrences of the collected results in their order, without duplicates. Every query sent
  stays within \<open>max_depth\<close> hops of the original name. Only a failure to build the resolver
  leaves the function as an exception.
\<close>

theorem resolve_name_any_bounded:
  "(\<exists>rs. resolve_name_any (Inr resolver) host max_depth = Inr rs
         \<and> rs = first_occurrences (results (explore resolver host max_depth))
         \<and> distinct rs
         \<and> set rs = set (results (explore resolver host max_depth)))
   \<and> list_all (within_depth max_depth) (sent (explore resolver host max_depth))
   \<and> resolve_name_any (Inl e) host max_depth = Inl e"
  by (simp add: resolve_name_any_def dedup_into_first distinct_first_occurrences
        set_first_occurrences explore_log)

text \<open>
  A cycle of two names, \<open>a \<rightarrow> b \<rightarrow> a\<close>, with \<open>max_depth = 3\<close>: nine queries, the deepest two
  hops from the original name.
\<close>

theorem resolve_name_any_bounded_witness:
  "resolve_name_any (Inr (\<lambda>k n rd. if rd = CNAME
                     then (if n = ''a.example.com'' then Inr [''b.example.com.'']
                           else if n = ''b.example.com'' then Inr [''a.example.com.'']
                           else Inl (Raised ''NXDOMAIN''))
                     else if rd = A \<and> n = ''b.example.com'' then Inr [''10.0.0.1'']
                     else Inl (Raised ''NXDOMAIN''))) ''a.example.com'' 3
     = Inr [''b.example.com'', ''10.0.0.1'', ''a.example.com'']
   \<and> list_all (within_depth 3) (sent (explore (\<lambda>k n rd. if rd = CNAME
                     then (if n = ''a.example.com'' then Inr [''b.example.com.'']
                           else if n = ''b.example.com'' then Inr [''a.example.com.'']
                           else Inl (Raised ''NXDOMAIN''))
                     else if rd = A \<and> n = ''b.example.com'' then Inr [''10.0.0.1'']
                     else Inl (Raised ''NXDOMAIN'')) ''a.example.com'' 3))
   \<and> length (sent (explore (\<lambda>k n rd. if rd = CNAME
                     then (if n = ''a.example.com'' then Inr [''b.example.com.'']
                           else if n = ''b.example.com'' then Inr [''a.example.com.'']
                           else Inl (Raised ''NXDOMAIN''))
                     else if rd = A \<and> n = ''b.example.com'' then Inr [''10.0.0.1'']
                     else Inl (Raised ''NXDOMAIN'')) ''a.example.com'' 3)) = 9"
proof -
  have v: "resolve_name_any (Inr (\<lambda>k n rd. if rd = CNAME
                     then (if n = ''a.example.com'' then Inr [''b.example.com.'']
                           else if n = ''b.example.com'' then Inr [''a.example.com.'']
                           else Inl (Raised ''NXDOMAIN''))
                     else if rd = A \<and> n = ''b.example.com'' then Inr [''10.0.0.1'']
                     else Inl (Raised ''NXDOMAIN''))) ''a.example.com'' 3
     = Inr [''b.example.com'', ''10.0.0.1'', ''a.example.com'']" by code_simp
  have l: "length (sent (explore (\<lambda>k n rd. if rd = CNAME
                     then (if n = ''a.example.com'' then Inr [''b.example.com.'']
                           else if n = ''b.example.com'' then Inr [''a.example.com.'']
                           else Inl (Raised ''NXDOMAIN''))
                     else if rd = A \<and> n = ''b.example.com'' then Inr [''10.0.0.1'']
                     else Inl (Raised ''NXDOMAIN'')) ''a.example.com'' 3)) = 9" by code_simp
  from resolve_name_any_bounded[of "(\<lambda>k n rd. if rd = CNAME
                     then (if n = ''a.example.com'' then Inr [''b.example.com.'']
                           else if n = ''b.example.com'' then Inr [''a.example.com.'']
                           else Inl (Raised ''NXDOMAIN''))
                     else if rd = A \<and> n = ''b.example.com'' then Inr [''10.0.0.1'']
                     else Inl (Raised ''NXDOMAIN''))" "''a.example.com''" 3]
  have "list_all (within_depth 3) (sent (explore (\<lambda>k n rd. if rd = CNAME
                     then (if n = ''a.example.com'' then Inr [''b.example.com.'']
                           else if n = ''b.example.com'' then Inr [''a.example.com.'']
                           else Inl (Raised ''NXDOMAIN''))
                     else if rd = A \<and> n = ''b.example.com'' then Inr [''10.0.0.1'']
                     else Inl (Raised ''NXDOMAIN'')) ''a.example.com'' 3))" by blast
  with v l show ?thesis by blast
qed

end
